theory Spec2Isabelle
  imports Complex_Main "HOL-Library.Multiset" "HOL-Library.Signed_Division"
begin

section \<open>Data model of the statistics store\<close>

text \<open>
  Go's \<open>int\<close> (on the 64-bit platforms the program is built for) and \<open>time.Duration\<close>, a
  count of nanoseconds, are signed 64-bit integers: \<open>+\<close>, \<open>-\<close> and \<open>*\<close> wrap around and \<open>/\<close>
  truncates towards zero. They are integers here, and \<open>add64\<close>, \<open>sub64\<close>, \<open>mul64\<close> and
  \<open>div64\<close> are the operations of the machine: the mathematical result, wrapped into
  \<open>- 2 ^ 63 .. 2 ^ 63 - 1\<close> by \<open>wrap64\<close>. The packet counters of a result of go-ping
  (\<open>PacketsSent\<close>, \<open>PacketsRecv\<close>, \<open>PacketsRecvDuplicates\<close>) only ever count upwards from
  zero and are natural numbers; the totals the store accumulates from them can wrap, and
  are integers.
  \<open>PacketLoss\<close> is a percentage held in a \<open>float64\<close>; the store only copies and compares
  it, and it is a real number here (go-ping computes it from the two counters; the one
  value that is no number, the quotient of a probe that sent nothing, is left out). A
  \<open>time.Time\<close> is an integer timestamp.
\<close>

type_synonym Duration = int
type_synonym Time = int

definition wrap64 :: "int \<Rightarrow> int" where
  "wrap64 x = (x + 2 ^ 63) mod 2 ^ 64 - 2 ^ 63"

definition in64 :: "int \<Rightarrow> bool" where
  "in64 x \<longleftrightarrow> - (2 ^ 63) \<le> x \<and> x < 2 ^ 63"

definition add64 :: "int \<Rightarrow> int \<Rightarrow> int" where
  "add64 a b = wrap64 (a + b)"

definition sub64 :: "int \<Rightarrow> int \<Rightarrow> int" where
  "sub64 a b = wrap64 (a - b)"

definition mul64 :: "int \<Rightarrow> int \<Rightarrow> int" where
  "mul64 a b = wrap64 (a * b)"

text \<open>The divisor is never zero where the store divides: a guard above zero stands before.\<close>

definition div64 :: "int \<Rightarrow> int \<Rightarrow> int" where
  "div64 a b = wrap64 (a sdiv b)"

definition Millisecond :: Duration where
  "Millisecond = 1000000"

definition Hour :: Duration where
  "Hour = 3600000000000"

text \<open>The fields of go-ping's \<open>ping.Statistics\<close> that the store reads.\<close>

record Statistics =
  st_PacketsRecv :: nat
  st_PacketsSent :: nat
  st_PacketsRecvDuplicates :: nat
  st_PacketLoss :: real
  st_MinRtt :: Duration
  st_MaxRtt :: Duration
  st_AvgRtt :: Duration

record PingStatistic =
  SrcIp :: string
  DecIp :: string
  ps_Region :: string
  ps_Isp :: string
  Statistic :: Statistics

record SummaryStatistic =
  DestIP :: string
  Region :: string
  Isp :: string
  TotalSent :: int
  TotalRecv :: int
  MinRtt :: Duration
  MaxRtt :: Duration
  AvgRtt :: Duration
  MinRttAvg :: Duration
  MaxRttAvg :: Duration
  LastUpdated :: Time
  PacketLoss :: real
  PacketsRecvDuplicates :: nat

text \<open>
  The store without its mutex: every method holds the lock from entry to return, so a
  method is one atomic step on this state.
\<close>

record PingStatsStore =
  summaryData :: "string \<rightharpoonup> SummaryStatistic"
  recentStats :: "PingStatistic list"
  maxRecent :: int

definition NewPingStatsStore :: "int \<Rightarrow> PingStatsStore" where
  "NewPingStatsStore n = \<lparr>summaryData = Map.empty, recentStats = [], maxRecent = n\<rparr>"

section \<open>Add\<close>

text \<open>
  The record a destination gets when its first result arrives. The fields the literal
  leaves out have Go's zero value.
\<close>

definition newSummary :: "PingStatistic \<Rightarrow> SummaryStatistic" where
  "newSummary stat =
     \<lparr>DestIP = DecIp stat, Region = ps_Region stat, Isp = ps_Isp stat,
      TotalSent = 0, TotalRecv = 0,
      MinRtt = Hour, MaxRtt = 0, AvgRtt = 0, MinRttAvg = 0, MaxRttAvg = 0,
      LastUpdated = 0,
      PacketLoss = st_PacketLoss (Statistic stat),
      PacketsRecvDuplicates = st_PacketsRecvDuplicates (Statistic stat)\<rparr>"

text \<open>
  The update of the record \<open>sum\<close> by one result, one function for each statement of
  \<open>Add\<close> in the order of the source; \<open>now\<close> is the value \<open>time.Now()\<close> returns in this
  call. When \<open>updMinRttAvg\<close>, \<open>updMaxRttAvg\<close> and \<open>updAvgRtt\<close> run, \<open>TotalRecv\<close> already
  includes the packets of this result. Each divides by \<open>TotalRecv\<close> only under a guard
  that puts it above zero, so no division panics.
\<close>

definition addTotals :: "Time \<Rightarrow> Statistics \<Rightarrow> SummaryStatistic \<Rightarrow> SummaryStatistic" where
  "addTotals now statsData sum0 =
     sum0\<lparr>TotalSent := add64 (TotalSent sum0) (int (st_PacketsSent statsData)),
           TotalRecv := add64 (TotalRecv sum0) (int (st_PacketsRecv statsData)),
           LastUpdated := now\<rparr>"

definition updMinRtt :: "Statistics \<Rightarrow> SummaryStatistic \<Rightarrow> SummaryStatistic" where
  "updMinRtt statsData sum0 =
     (if st_MinRtt statsData > 0 \<and> st_MinRtt statsData < MinRtt sum0
      then sum0\<lparr>MinRtt := st_MinRtt statsData\<rparr> else sum0)"

definition updMinRttAvg :: "Statistics \<Rightarrow> SummaryStatistic \<Rightarrow> SummaryStatistic" where
  "updMinRttAvg statsData sum0 =
     (if TotalRecv sum0 > int (st_PacketsRecv statsData)
      then sum0\<lparr>MinRttAvg :=
             div64
               (add64
                 (mul64 (MinRttAvg sum0)
                    (sub64 (TotalRecv sum0) (int (st_PacketsRecv statsData))))
                 (mul64 (st_MinRtt statsData) (int (st_PacketsRecv statsData))))
               (TotalRecv sum0)\<rparr>
      else sum0\<lparr>MinRttAvg := st_MinRtt statsData\<rparr>)"

definition updMaxRtt :: "Statistics \<Rightarrow> SummaryStatistic \<Rightarrow> SummaryStatistic" where
  "updMaxRtt statsData sum0 =
     (if st_MaxRtt statsData > MaxRtt sum0
      then sum0\<lparr>MaxRtt := st_MaxRtt statsData\<rparr> else sum0)"

definition updMaxRttAvg :: "Statistics \<Rightarrow> SummaryStatistic \<Rightarrow> SummaryStatistic" where
  "updMaxRttAvg statsData sum0 =
     (if TotalRecv sum0 > int (st_PacketsRecv statsData)
      then sum0\<lparr>MaxRttAvg :=
             div64
               (add64
                 (mul64 (MaxRttAvg sum0)
                    (sub64 (TotalRecv sum0) (int (st_PacketsRecv statsData))))
                 (mul64 (st_MaxRtt statsData) (int (st_PacketsRecv statsData))))
               (TotalRecv sum0)\<rparr>
      else sum0\<lparr>MaxRttAvg := st_MaxRtt statsData\<rparr>)"

definition updAvgRtt :: "Statistics \<Rightarrow> SummaryStatistic \<Rightarrow> SummaryStatistic" where
  "updAvgRtt statsData sum0 =
     (if TotalRecv sum0 > 0
      then sum0\<lparr>AvgRtt :=
             div64
               (add64
                 (mul64 (AvgRtt sum0)
                    (sub64 (TotalRecv sum0) (int (st_PacketsRecv statsData))))
                 (mul64 (st_AvgRtt statsData) (int (st_PacketsRecv statsData))))
               (TotalRecv sum0)\<rparr>
      else sum0)"

definition mergeStat :: "Time \<Rightarrow> Statistics \<Rightarrow> SummaryStatistic \<Rightarrow> SummaryStatistic" where
  "mergeStat now statsData sum0 =
     updAvgRtt statsData
       (updMaxRttAvg statsData
         (updMaxRtt statsData
           (updMinRttAvg statsData
             (updMinRtt statsData
               (addTotals now statsData sum0)))))"

definition pushRecent :: "PingStatsStore \<Rightarrow> PingStatistic \<Rightarrow> PingStatistic list" where
  "pushRecent s stat =
     (let rs = recentStats s @ [stat]
      in if int (length rs) > maxRecent s then tl rs else rs)"

definition Add :: "Time \<Rightarrow> PingStatsStore \<Rightarrow> PingStatistic \<Rightarrow> PingStatsStore" where
  "Add now s stat =
     (let key = DecIp stat;
          sum0 = (case summaryData s key of None \<Rightarrow> newSummary stat | Some r \<Rightarrow> r)
      in s\<lparr>recentStats := pushRecent s stat,
            summaryData := (summaryData s)(key \<mapsto> mergeStat now (Statistic stat) sum0)\<rparr>)"

text \<open>A run of \<open>Add\<close> calls, each with the time at which it ran.\<close>

fun Adds :: "PingStatsStore \<Rightarrow> (Time \<times> PingStatistic) list \<Rightarrow> PingStatsStore" where
  "Adds s [] = s"
| "Adds s ((now, stat) # rest) = Adds (Add now s stat) rest"

section \<open>Sorting\<close>

text \<open>
  \<open>sort.Slice\<close> belongs to Go's standard library. Its contract: the result is a
  rearrangement of the slice that is ordered by \<open>less\<close>, ties in any order, provided
  \<open>less\<close> is a transitive ordering in the sense of the documentation of \<open>sort.Interface\<close>.
  The summary functions take the sorting routine as the parameter \<open>srt\<close>, and what is
  proved of them holds for every routine that meets the contract.

  The comparison functions of the store return \<open>!less\<close> when \<open>descending\<close> is set, which is
  \<open>\<ge>\<close> on the sort key and not a strict order. So \<open>in_order\<close> reads "\<open>x\<close> may stand before
  \<open>y\<close>" as: \<open>less x y\<close>, or not \<open>less y x\<close>. For \<open><\<close> this is \<open>\<le>\<close> on the key, and for
  its negation it is \<open>\<ge>\<close>.
\<close>

type_synonym 'a sorter = "('a \<Rightarrow> 'a \<Rightarrow> bool) \<Rightarrow> 'a list \<Rightarrow> 'a list"

definition transitive_ordering :: "('a \<Rightarrow> 'a \<Rightarrow> bool) \<Rightarrow> bool" where
  "transitive_ordering lt \<longleftrightarrow>
     (\<forall>x y z. lt x y \<and> lt y z \<longrightarrow> lt x z) \<and>
     (\<forall>x y z. \<not> lt x y \<and> \<not> lt y z \<longrightarrow> \<not> lt x z)"

definition in_order :: "('a \<Rightarrow> 'a \<Rightarrow> bool) \<Rightarrow> 'a \<Rightarrow> 'a \<Rightarrow> bool" where
  "in_order lt x y \<longleftrightarrow> lt x y \<or> \<not> lt y x"

definition sort_contract :: "'a sorter \<Rightarrow> bool" where
  "sort_contract srt \<longleftrightarrow>
     (\<forall>lt xs. transitive_ordering lt \<longrightarrow>
        mset (srt lt xs) = mset xs \<and> sorted_wrt (in_order lt) (srt lt xs))"

text \<open>
  The routine \<open>sort.Slice\<close> runs on a slice of at most 12 elements is the insertion sort
  \<open>insertionSortLessFunc\<close>: for \<open>i\<close> from 1, the element at \<open>i\<close> is swapped with its left
  neighbour while \<open>less\<close> puts it before that neighbour. \<open>insertLeft\<close> is the inner loop on
  the sorted part \<open>data[0..i)\<close>, which it holds reversed (its head is \<open>data[i-1]\<close>).
\<close>

fun insertLeft :: "('a \<Rightarrow> 'a \<Rightarrow> bool) \<Rightarrow> 'a \<Rightarrow> 'a list \<Rightarrow> 'a list" where
  "insertLeft lt x [] = [x]"
| "insertLeft lt x (y # ys) =
     (if lt x y then y # insertLeft lt x ys else x # y # ys)"

definition insertionSortLessFunc :: "'a sorter" where
  "insertionSortLessFunc lt xs = rev (foldl (\<lambda>sorted_part x. insertLeft lt x sorted_part) [] xs)"

section \<open>Summary views\<close>

text \<open>
  Go leaves the order in which \<open>range\<close> visits a map unspecified. A view takes the order
  of one traversal as the list \<open>ks\<close> of the keys in the order visited; \<open>is_iteration\<close> says
  that \<open>ks\<close> is such a traversal of the map \<open>m\<close>: every key of \<open>m\<close> once.
\<close>

definition is_iteration :: "'k list \<Rightarrow> ('k \<rightharpoonup> 'v) \<Rightarrow> bool" where
  "is_iteration ks m \<longleftrightarrow> distinct ks \<and> set ks = dom m"

definition copySummary :: "SummaryStatistic \<Rightarrow> SummaryStatistic" where
  "copySummary v =
     \<lparr>DestIP = DestIP v, Region = Region v, Isp = Isp v,
      TotalSent = TotalSent v, TotalRecv = TotalRecv v,
      MinRtt = MinRtt v, MaxRtt = MaxRtt v, AvgRtt = AvgRtt v,
      MinRttAvg = MinRttAvg v, MaxRttAvg = MaxRttAvg v,
      LastUpdated = LastUpdated v,
      PacketLoss = PacketLoss v,
      PacketsRecvDuplicates = PacketsRecvDuplicates v\<rparr>"

definition rangeCopies :: "string list \<Rightarrow> PingStatsStore \<Rightarrow> SummaryStatistic list" where
  "rangeCopies ks s = map copySummary (List.map_filter (summaryData s) ks)"

definition direction :: "bool \<Rightarrow> bool \<Rightarrow> bool" where
  "direction descending lt = (if descending then \<not> lt else lt)"

definition lessFlat :: "string \<Rightarrow> SummaryStatistic \<Rightarrow> SummaryStatistic \<Rightarrow> bool" where
  "lessFlat field a b =
     (if field = ''minrtt'' then MinRtt a < MinRtt b
      else if field = ''maxrtt'' then MaxRtt a < MaxRtt b
      else if field = ''avgrtt'' then AvgRtt a < AvgRtt b
      else PacketLoss a < PacketLoss b)"

definition GetSummarySorted ::
  "SummaryStatistic sorter \<Rightarrow> string list \<Rightarrow> PingStatsStore \<Rightarrow> string \<Rightarrow> bool
   \<Rightarrow> SummaryStatistic list" where
  "GetSummarySorted srt ks s field descending =
     srt (\<lambda>a b. direction descending (lessFlat field a b)) (rangeCopies ks s)"

definition lessGrouped :: "string \<Rightarrow> SummaryStatistic \<Rightarrow> SummaryStatistic \<Rightarrow> bool" where
  "lessGrouped field a b =
     (if field = ''loss'' then PacketLoss a < PacketLoss b
      else if field = ''rtt'' then AvgRtt a < AvgRtt b
      else if field = ''sent'' then TotalSent a < TotalSent b
      else if field = ''recv'' then TotalRecv a < TotalRecv b
      else PacketLoss a < PacketLoss b)"

text \<open>
  \<open>grouped[isp]\<close> holds the copies of the records of \<open>isp\<close> in the order the first loop
  visits them; the second loop visits the groups in the order \<open>isps\<close>.
\<close>

definition GetSummarySortedGroupedByIsp ::
  "SummaryStatistic sorter \<Rightarrow> string list \<Rightarrow> string list \<Rightarrow> PingStatsStore \<Rightarrow> string \<Rightarrow> bool
   \<Rightarrow> SummaryStatistic list" where
  "GetSummarySortedGroupedByIsp srt ks isps s field descending =
     concat (map (\<lambda>isp. srt (\<lambda>a b. direction descending (lessGrouped field a b))
                          (filter (\<lambda>v. Isp v = isp) (rangeCopies ks s)))
                 isps)"

definition lessLossOnly :: "string \<Rightarrow> SummaryStatistic \<Rightarrow> SummaryStatistic \<Rightarrow> bool" where
  "lessLossOnly field a b =
     (if field = ''rtt'' then AvgRtt a < AvgRtt b
      else if field = ''sent'' then TotalSent a < TotalSent b
      else if field = ''recv'' then TotalRecv a < TotalRecv b
      else PacketLoss a < PacketLoss b)"

definition GetLossOnlyGroupedByIspSorted ::
  "SummaryStatistic sorter \<Rightarrow> SummaryStatistic list \<Rightarrow> string \<Rightarrow> bool
   \<Rightarrow> SummaryStatistic list" where
  "GetLossOnlyGroupedByIspSorted srt summ field descending =
     srt (\<lambda>a b. direction descending (lessLossOnly field a b))
         (filter (\<lambda>v. PacketLoss v > 0) summ)"

text \<open>The value each field name sorts by, as a real number.\<close>

definition keyFlat :: "string \<Rightarrow> SummaryStatistic \<Rightarrow> real" where
  "keyFlat field v =
     (if field = ''minrtt'' then real_of_int (MinRtt v)
      else if field = ''maxrtt'' then real_of_int (MaxRtt v)
      else if field = ''avgrtt'' then real_of_int (AvgRtt v)
      else PacketLoss v)"

definition keyLossOnly :: "string \<Rightarrow> SummaryStatistic \<Rightarrow> real" where
  "keyLossOnly field v =
     (if field = ''rtt'' then real_of_int (AvgRtt v)
      else if field = ''sent'' then real_of_int (TotalSent v)
      else if field = ''recv'' then real_of_int (TotalRecv v)
      else PacketLoss v)"

section \<open>The consumer of the result stream\<close>

text \<open>
  \<open>HandleDPing\<close> receives from the channel until it is closed. \<open>HandleDPing_recv\<close> is one
  pass of its loop for a received result; \<open>printed\<close> collects what \<open>printProgress\<close> shows.
  \<open>HandleDPing\<close> runs the loop over the results sent before the close and returns the
  final state with the two tables it hands to \<open>printSummaryList\<close>.
\<close>

record Consumer =
  store :: PingStatsStore
  processedCount :: nat
  printed :: "nat list"

definition HandleDPing_recv :: "Consumer \<Rightarrow> Time \<times> PingStatistic \<Rightarrow> Consumer" where
  "HandleDPing_recv c ev =
     (let stats = snd ev;
          PacketLoss' = st_PacketLoss (Statistic stats);
          store' = (if PacketLoss' \<noteq> 100 then Add (fst ev) (store c) stats else store c);
          processedCount' = processedCount c + 1
      in \<lparr>store = store', processedCount = processedCount',
          printed = printed c @ [processedCount']\<rparr>)"

definition HandleDPing ::
  "SummaryStatistic sorter \<Rightarrow> string list \<Rightarrow> string list \<Rightarrow> PingStatsStore \<Rightarrow> string \<Rightarrow> bool
   \<Rightarrow> (Time \<times> PingStatistic) list
   \<Rightarrow> Consumer \<times> SummaryStatistic list \<times> SummaryStatistic list" where
  "HandleDPing srt ks isps st sortField des evs =
     (let c = foldl HandleDPing_recv \<lparr>store = st, processedCount = 0, printed = []\<rparr> evs;
          SummaryStatistic' = GetSummarySortedGroupedByIsp srt ks isps (store c) sortField des
      in (c, SummaryStatistic',
          GetLossOnlyGroupedByIspSorted srt SummaryStatistic' sortField des))"

section \<open>Validation of the requested ISP and region\<close>












section \<open>The weighted mean as the specification words it\<close>

text \<open>
  Merging a sample of value \<open>v\<close> and weight \<open>w\<close> into a running mean \<open>m\<close> of accumulated
  weight \<open>W\<close>: the first contributing sample gives \<open>v\<close>, every later one
  \<open>(m\<cdot>W + v\<cdot>w) / (W + w)\<close>. \<open>running_mean\<close> applies the rule to a sequence of samples.
\<close>

definition merge_rule :: "Duration \<Rightarrow> nat \<Rightarrow> Duration \<Rightarrow> nat \<Rightarrow> Duration" where
  "merge_rule m W v w =
     (if W = 0 then v else (m * int W + v * int w) sdiv (int W + int w))"

fun running_mean :: "Duration \<Rightarrow> nat \<Rightarrow> (Duration \<times> nat) list \<Rightarrow> Duration" where
  "running_mean m W [] = m"
| "running_mean m W ((v, w) # rest) = running_mean (merge_rule m W v w) (W + w) rest"

section \<open>The dispatcher\<close>

text \<open>
  \<open>DPing\<close> starts one goroutine for every address its loops reach and then waits. What
  the goroutines share is the buffered channel \<open>sem\<close> of capacity \<open>maxConcurrency\<close>, the
  wait group \<open>wg\<close> and the result channel. The model is the state of these three and the
  place each goroutine has reached, and a run is a schedule: the list of the
  synchronisation steps in the order the Go runtime lets them happen. \<open>step\<close> returns
  \<open>None\<close> for a step the runtime cannot take in a state (a send on the full \<open>sem\<close>, or
  \<open>wg.Wait()\<close> returning while the counter is above zero).

  The places of a goroutine: \<open>Waiting\<close> before \<open>sem <- struct{}{}\<close> has gone through,
  \<open>Probing\<close> inside \<open>Ping\<close>, \<open>Returned\<close> when \<open>Ping\<close> has returned (with a result sent, or
  without one after an error or a recovered panic) and the deferred function has not yet
  run, \<open>Released\<close> after its \<open><-sem\<close>, \<open>Finished\<close> after its \<open>wg.Done()\<close>.
\<close>

record Target =
  t_ip :: string
  t_region :: string
  t_isp :: string

datatype place = Waiting | Probing | Returned | Released | Finished

record Dispatcher =
  pending :: "Target list"
  tasks :: "(Target \<times> place) list"
  sem :: nat
  wg :: nat
  sent_results :: "Target list"
  closed :: bool

datatype action =
    Spawn
  | Acquire nat
  | PingReturns nat bool
  | Release nat
  | Done nat
  | WaitAndClose

definition dispatch :: "Target list \<Rightarrow> Dispatcher" where
  "dispatch targets =
     \<lparr>pending = targets, tasks = [], sem = 0, wg = 0, sent_results = [], closed = False\<rparr>"

definition at_place :: "Dispatcher \<Rightarrow> nat \<Rightarrow> place \<Rightarrow> bool" where
  "at_place d i p \<longleftrightarrow> i < length (tasks d) \<and> snd (tasks d ! i) = p"

definition move :: "Dispatcher \<Rightarrow> nat \<Rightarrow> place \<Rightarrow> (Target \<times> place) list" where
  "move d i p = (tasks d)[i := (fst (tasks d ! i), p)]"

fun step :: "nat \<Rightarrow> Dispatcher \<Rightarrow> action \<Rightarrow> Dispatcher option" where
  "step maxConcurrency d Spawn =
     (case pending d of
        [] \<Rightarrow> None
      | ip # rest \<Rightarrow>
          Some (d\<lparr>pending := rest, wg := wg d + 1, tasks := tasks d @ [(ip, Waiting)]\<rparr>))"
| "step maxConcurrency d (Acquire i) =
     (if at_place d i Waiting \<and> sem d < maxConcurrency
      then Some (d\<lparr>sem := sem d + 1, tasks := move d i Probing\<rparr>) else None)"
| "step maxConcurrency d (PingReturns i ok) =
     (if at_place d i Probing
      then Some (d\<lparr>sent_results :=
                      (if ok then sent_results d @ [fst (tasks d ! i)] else sent_results d),
                    tasks := move d i Returned\<rparr>)
      else None)"
| "step maxConcurrency d (Release i) =
     (if at_place d i Returned \<and> 0 < sem d
      then Some (d\<lparr>sem := sem d - 1, tasks := move d i Released\<rparr>) else None)"
| "step maxConcurrency d (Done i) =
     (if at_place d i Released \<and> 0 < wg d
      then Some (d\<lparr>wg := wg d - 1, tasks := move d i Finished\<rparr>) else None)"
| "step maxConcurrency d WaitAndClose =
     (if pending d = [] \<and> wg d = 0 \<and> \<not> closed d
      then Some (d\<lparr>closed := True\<rparr>) else None)"

fun run :: "nat \<Rightarrow> Dispatcher \<Rightarrow> action list \<Rightarrow> Dispatcher option" where
  "run maxConcurrency d [] = Some d"
| "run maxConcurrency d (a # as) =
     (case step maxConcurrency d a of
        None \<Rightarrow> None
      | Some d' \<Rightarrow> run maxConcurrency d' as)"

definition count_at :: "place set \<Rightarrow> (Target \<times> place) list \<Rightarrow> nat" where
  "count_at ps ts = length (filter (\<lambda>t. snd t \<in> ps) ts)"

text \<open>What holds in every state of every run, given the targets and the limit.\<close>

definition dispatch_inv :: "Target list \<Rightarrow> nat \<Rightarrow> Dispatcher \<Rightarrow> bool" where
  "dispatch_inv targets maxConcurrency d \<longleftrightarrow>
     map fst (tasks d) @ pending d = targets \<and>
     sem d = count_at {Probing, Returned} (tasks d) \<and>
     sem d \<le> maxConcurrency \<and>
     wg d = count_at {Waiting, Probing, Returned, Released} (tasks d) \<and>
     (closed d \<longrightarrow> pending d = [] \<and> wg d = 0)"

text \<open>
  The synchronisation steps a goroutine at a place still has to take, and those the whole
  run has: five for every target the loops have not reached (the start of its goroutine
  and the four steps of the goroutine), and the close of the result channel.
\<close>

fun remaining :: "place \<Rightarrow> nat" where
  "remaining Waiting = 4"
| "remaining Probing = 3"
| "remaining Returned = 2"
| "remaining Released = 1"
| "remaining Finished = 0"

definition steps_left :: "Dispatcher \<Rightarrow> nat" where
  "steps_left d =
     5 * length (pending d) + sum_list (map (\<lambda>t. remaining (snd t)) (tasks d))
     + (if closed d then 0 else 1)"

text \<open>
  The goroutines, by their number in the order of their start, whose \<open>Ping\<close> sent a result
  in a schedule, in the order of the sends.
\<close>

fun result_of :: "action \<Rightarrow> nat list" where
  "result_of (PingReturns i ok) = (if ok then [i] else [])"
| "result_of Spawn = []"
| "result_of (Acquire i) = []"
| "result_of (Release i) = []"
| "result_of (Done i) = []"
| "result_of WaitAndClose = []"

definition succeeded :: "action list \<Rightarrow> nat list" where
  "succeeded sched = concat (map result_of sched)"

definition past_ping :: "Dispatcher \<Rightarrow> nat \<Rightarrow> bool" where
  "past_ping d i \<longleftrightarrow> i < length (tasks d) \<and> snd (tasks d ! i) \<in> {Returned, Released, Finished}"

text \<open>Two targets and a schedule for them under the limit 1.\<close>

definition target1 :: Target where
  "target1 = \<lparr>t_ip = ''219.141.136.10'', t_region = ''north'', t_isp = ''ispA''\<rparr>"

definition target2 :: Target where
  "target2 = \<lparr>t_ip = ''219.141.140.10'', t_region = ''north'', t_isp = ''ispA''\<rparr>"

definition schedule1 :: "action list" where
  "schedule1 =
     [Spawn, Acquire 0, Spawn, PingReturns 0 True, Release 0, Acquire 1, Done 0,
      PingReturns 1 False, Release 1, Done 1, WaitAndClose]"

section \<open>Concrete probe results\<close>

text \<open>
  The two results of the scenario of the specification for destination 1.1.1.1 (here
  tagged with different regions and ISPs), and a result with every packet lost.
\<close>

definition sample1 :: PingStatistic where
  "sample1 =
     \<lparr>SrcIp = '''', DecIp = ''1.1.1.1'', ps_Region = ''north'', ps_Isp = ''ispA'',
      Statistic = \<lparr>st_PacketsRecv = 3, st_PacketsSent = 3, st_PacketsRecvDuplicates = 0,
        st_PacketLoss = 0, st_MinRtt = 10 * Millisecond, st_MaxRtt = 30 * Millisecond,
        st_AvgRtt = 20 * Millisecond\<rparr>\<rparr>"

definition sample2 :: PingStatistic where
  "sample2 =
     \<lparr>SrcIp = '''', DecIp = ''1.1.1.1'', ps_Region = ''south'', ps_Isp = ''ispB'',
      Statistic = \<lparr>st_PacketsRecv = 2, st_PacketsSent = 3, st_PacketsRecvDuplicates = 1,
        st_PacketLoss = 333 / 10, st_MinRtt = 8 * Millisecond, st_MaxRtt = 25 * Millisecond,
        st_AvgRtt = 15 * Millisecond\<rparr>\<rparr>"

definition sample_lost :: PingStatistic where
  "sample_lost =
     \<lparr>SrcIp = '''', DecIp = ''2.2.2.2'', ps_Region = ''north'', ps_Isp = ''ispA'',
      Statistic = \<lparr>st_PacketsRecv = 0, st_PacketsSent = 3, st_PacketsRecvDuplicates = 0,
        st_PacketLoss = 100, st_MinRtt = 0, st_MaxRtt = 0, st_AvgRtt = 0\<rparr>\<rparr>"

definition scenario :: "(Time \<times> PingStatistic) list" where
  "scenario = [(1, sample1), (2, sample2)]"

definition scenario_record :: SummaryStatistic where
  "scenario_record =
     \<lparr>DestIP = ''1.1.1.1'', Region = ''north'', Isp = ''ispA'',
      TotalSent = 6, TotalRecv = 5,
      MinRtt = 8 * Millisecond, MaxRtt = 30 * Millisecond, AvgRtt = 18 * Millisecond,
      MinRttAvg = 9200000, MaxRttAvg = 28 * Millisecond,
      LastUpdated = 2, PacketLoss = 0, PacketsRecvDuplicates = 0\<rparr>"

text \<open>Three records of a store, two with lost packets, on two ISPs.\<close>

definition recA :: SummaryStatistic where
  "recA = \<lparr>DestIP = ''10.0.0.1'', Region = ''north'', Isp = ''ispA'',
      TotalSent = 4, TotalRecv = 2,
      MinRtt = 9 * Millisecond, MaxRtt = 40 * Millisecond, AvgRtt = 20 * Millisecond,
      MinRttAvg = 9 * Millisecond, MaxRttAvg = 40 * Millisecond,
      LastUpdated = 1, PacketLoss = 50, PacketsRecvDuplicates = 0\<rparr>"

definition recB :: SummaryStatistic where
  "recB = \<lparr>DestIP = ''10.0.0.2'', Region = ''south'', Isp = ''ispB'',
      TotalSent = 10, TotalRecv = 9,
      MinRtt = 5 * Millisecond, MaxRtt = 50 * Millisecond, AvgRtt = 30 * Millisecond,
      MinRttAvg = 5 * Millisecond, MaxRttAvg = 50 * Millisecond,
      LastUpdated = 2, PacketLoss = 10, PacketsRecvDuplicates = 0\<rparr>"

definition recC :: SummaryStatistic where
  "recC = \<lparr>DestIP = ''10.0.0.3'', Region = ''north'', Isp = ''ispA'',
      TotalSent = 3, TotalRecv = 3,
      MinRtt = 7 * Millisecond, MaxRtt = 12 * Millisecond, AvgRtt = 10 * Millisecond,
      MinRttAvg = 7 * Millisecond, MaxRttAvg = 12 * Millisecond,
      LastUpdated = 3, PacketLoss = 0, PacketsRecvDuplicates = 0\<rparr>"

definition store_abc :: PingStatsStore where
  "store_abc = \<lparr>summaryData = [''10.0.0.1'' \<mapsto> recA, ''10.0.0.2'' \<mapsto> recB, ''10.0.0.3'' \<mapsto> recC],
      recentStats = [], maxRecent = 25\<rparr>"



definition record_after_sample1 :: SummaryStatistic where
  "record_after_sample1 =
     \<lparr>DestIP = ''1.1.1.1'', Region = ''north'', Isp = ''ispA'',
      TotalSent = 3, TotalRecv = 3,
      MinRtt = 10 * Millisecond, MaxRtt = 30 * Millisecond, AvgRtt = 20 * Millisecond,
      MinRttAvg = 10 * Millisecond, MaxRttAvg = 30 * Millisecond,
      LastUpdated = 1, PacketLoss = 0, PacketsRecvDuplicates = 0\<rparr>"

text \<open>
  Two results at the far end of the machine range: one that sent \<open>2 ^ 62\<close> packets, and one
  whose average round-trip time is \<open>2 ^ 62\<close> nanoseconds; with the records the store holds
  after the first is added twice and the second once.
\<close>

definition sample_many :: PingStatistic where
  "sample_many =
     \<lparr>SrcIp = '''', DecIp = ''3.3.3.3'', ps_Region = ''north'', ps_Isp = ''ispA'',
      Statistic = \<lparr>st_PacketsRecv = 1, st_PacketsSent = 2 ^ 62, st_PacketsRecvDuplicates = 0,
        st_PacketLoss = 99, st_MinRtt = 20 * Millisecond, st_MaxRtt = 20 * Millisecond,
        st_AvgRtt = 20 * Millisecond\<rparr>\<rparr>"

definition record_many :: SummaryStatistic where
  "record_many =
     \<lparr>DestIP = ''3.3.3.3'', Region = ''north'', Isp = ''ispA'',
      TotalSent = - (2 ^ 63), TotalRecv = 2,
      MinRtt = 20 * Millisecond, MaxRtt = 20 * Millisecond, AvgRtt = 20 * Millisecond,
      MinRttAvg = 20 * Millisecond, MaxRttAvg = 20 * Millisecond,
      LastUpdated = 2, PacketLoss = 99, PacketsRecvDuplicates = 0\<rparr>"

definition sample_far :: PingStatistic where
  "sample_far =
     \<lparr>SrcIp = '''', DecIp = ''4.4.4.4'', ps_Region = ''north'', ps_Isp = ''ispA'',
      Statistic = \<lparr>st_PacketsRecv = 4, st_PacketsSent = 4, st_PacketsRecvDuplicates = 0,
        st_PacketLoss = 0, st_MinRtt = 2 ^ 62, st_MaxRtt = 2 ^ 62, st_AvgRtt = 2 ^ 62\<rparr>\<rparr>"

definition record_far :: SummaryStatistic where
  "record_far =
     \<lparr>DestIP = ''4.4.4.4'', Region = ''north'', Isp = ''ispA'',
      TotalSent = 4, TotalRecv = 4,
      MinRtt = Hour, MaxRtt = 2 ^ 62, AvgRtt = 0,
      MinRttAvg = 2 ^ 62, MaxRttAvg = 2 ^ 62,
      LastUpdated = 1, PacketLoss = 0, PacketsRecvDuplicates = 0\<rparr>"

section \<open>Predicates of the statements\<close>

text \<open>
  The results of a run that are for destination \<open>k\<close>, in the order they were added; as
  samples for the mean, each is its average round-trip time weighted by its received
  packets. \<open>firstFor\<close> is the first result of the run for \<open>k\<close>.
\<close>

definition samplesFor :: "string \<Rightarrow> (Time \<times> PingStatistic) list \<Rightarrow> Statistics list" where
  "samplesFor k evs = map (\<lambda>e. Statistic (snd e)) (filter (\<lambda>e. DecIp (snd e) = k) evs)"

definition weighted :: "Statistics list \<Rightarrow> (Duration \<times> nat) list" where
  "weighted ds = map (\<lambda>d. (st_AvgRtt d, st_PacketsRecv d)) ds"

definition firstFor :: "string \<Rightarrow> (Time \<times> PingStatistic) list \<Rightarrow> PingStatistic option" where
  "firstFor k evs = map_option snd (find (\<lambda>e. DecIp (snd e) = k) evs)"

text \<open>The weighted sum and the total weight of samples, for the exact weighted mean.\<close>

definition weighted_sum :: "(Duration \<times> nat) list \<Rightarrow> int" where
  "weighted_sum xs = sum_list (map (\<lambda>(v, w). v * int w) xs)"

definition total_weight :: "(Duration \<times> nat) list \<Rightarrow> nat" where
  "total_weight xs = sum_list (map snd xs)"

text \<open>The fields that \<open>Add\<close> writes only in the literal that creates a record.\<close>

definition same_identity :: "SummaryStatistic \<Rightarrow> SummaryStatistic \<Rightarrow> bool" where
  "same_identity r r0 \<longleftrightarrow>
     DestIP r = DestIP r0 \<and> Region r = Region r0 \<and> Isp r = Isp r0 \<and>
     PacketLoss r = PacketLoss r0 \<and> PacketsRecvDuplicates r = PacketsRecvDuplicates r0"

section \<open>Field lemmas of one merge\<close>

lemma addTotals_fields:
  "DestIP (addTotals now d r) = DestIP r"
  "Region (addTotals now d r) = Region r"
  "Isp (addTotals now d r) = Isp r"
  "PacketLoss (addTotals now d r) = PacketLoss r"
  "PacketsRecvDuplicates (addTotals now d r) = PacketsRecvDuplicates r"
  "TotalSent (addTotals now d r) = add64 (TotalSent r) (int (st_PacketsSent d))"
  "TotalRecv (addTotals now d r) = add64 (TotalRecv r) (int (st_PacketsRecv d))"
  "MinRtt (addTotals now d r) = MinRtt r"
  "MaxRtt (addTotals now d r) = MaxRtt r"
  "AvgRtt (addTotals now d r) = AvgRtt r"
  by (simp_all add: addTotals_def)

lemma updMinRtt_fields:
  "DestIP (updMinRtt d r) = DestIP r"
  "Region (updMinRtt d r) = Region r"
  "Isp (updMinRtt d r) = Isp r"
  "PacketLoss (updMinRtt d r) = PacketLoss r"
  "PacketsRecvDuplicates (updMinRtt d r) = PacketsRecvDuplicates r"
  "TotalSent (updMinRtt d r) = TotalSent r"
  "TotalRecv (updMinRtt d r) = TotalRecv r"
  "MinRtt (updMinRtt d r) =
     (if st_MinRtt d > 0 \<and> st_MinRtt d < MinRtt r then st_MinRtt d else MinRtt r)"
  "MaxRtt (updMinRtt d r) = MaxRtt r"
  "AvgRtt (updMinRtt d r) = AvgRtt r"
  by (simp_all add: updMinRtt_def)

lemma updMinRttAvg_fields:
  "DestIP (updMinRttAvg d r) = DestIP r"
  "Region (updMinRttAvg d r) = Region r"
  "Isp (updMinRttAvg d r) = Isp r"
  "PacketLoss (updMinRttAvg d r) = PacketLoss r"
  "PacketsRecvDuplicates (updMinRttAvg d r) = PacketsRecvDuplicates r"
  "TotalSent (updMinRttAvg d r) = TotalSent r"
  "TotalRecv (updMinRttAvg d r) = TotalRecv r"
  "MinRtt (updMinRttAvg d r) = MinRtt r"
  "MaxRtt (updMinRttAvg d r) = MaxRtt r"
  "AvgRtt (updMinRttAvg d r) = AvgRtt r"
  by (simp_all add: updMinRttAvg_def)

lemma updMaxRtt_fields:
  "DestIP (updMaxRtt d r) = DestIP r"
  "Region (updMaxRtt d r) = Region r"
  "Isp (updMaxRtt d r) = Isp r"
  "PacketLoss (updMaxRtt d r) = PacketLoss r"
  "PacketsRecvDuplicates (updMaxRtt d r) = PacketsRecvDuplicates r"
  "TotalSent (updMaxRtt d r) = TotalSent r"
  "TotalRecv (updMaxRtt d r) = TotalRecv r"
  "MinRtt (updMaxRtt d r) = MinRtt r"
  "MaxRtt (updMaxRtt d r) = (if st_MaxRtt d > MaxRtt r then st_MaxRtt d else MaxRtt r)"
  "AvgRtt (updMaxRtt d r) = AvgRtt r"
  by (simp_all add: updMaxRtt_def)

lemma updMaxRttAvg_fields:
  "DestIP (updMaxRttAvg d r) = DestIP r"
  "Region (updMaxRttAvg d r) = Region r"
  "Isp (updMaxRttAvg d r) = Isp r"
  "PacketLoss (updMaxRttAvg d r) = PacketLoss r"
  "PacketsRecvDuplicates (updMaxRttAvg d r) = PacketsRecvDuplicates r"
  "TotalSent (updMaxRttAvg d r) = TotalSent r"
  "TotalRecv (updMaxRttAvg d r) = TotalRecv r"
  "MinRtt (updMaxRttAvg d r) = MinRtt r"
  "MaxRtt (updMaxRttAvg d r) = MaxRtt r"
  "AvgRtt (updMaxRttAvg d r) = AvgRtt r"
  by (simp_all add: updMaxRttAvg_def)

lemma updAvgRtt_fields:
  "DestIP (updAvgRtt d r) = DestIP r"
  "Region (updAvgRtt d r) = Region r"
  "Isp (updAvgRtt d r) = Isp r"
  "PacketLoss (updAvgRtt d r) = PacketLoss r"
  "PacketsRecvDuplicates (updAvgRtt d r) = PacketsRecvDuplicates r"
  "TotalSent (updAvgRtt d r) = TotalSent r"
  "TotalRecv (updAvgRtt d r) = TotalRecv r"
  "MinRtt (updAvgRtt d r) = MinRtt r"
  "MaxRtt (updAvgRtt d r) = MaxRtt r"
  "AvgRtt (updAvgRtt d r) =
     (if TotalRecv r > 0
      then div64 (add64 (mul64 (AvgRtt r) (sub64 (TotalRecv r) (int (st_PacketsRecv d))))
                        (mul64 (st_AvgRtt d) (int (st_PacketsRecv d))))
                 (TotalRecv r)
      else AvgRtt r)"
  by (simp_all add: updAvgRtt_def)

lemmas merge_fields =
  addTotals_fields updMinRtt_fields updMinRttAvg_fields updMaxRtt_fields
  updMaxRttAvg_fields updAvgRtt_fields

lemma mergeStat_frame:
  "DestIP (mergeStat now d r) = DestIP r"
  "Region (mergeStat now d r) = Region r"
  "Isp (mergeStat now d r) = Isp r"
  "PacketLoss (mergeStat now d r) = PacketLoss r"
  "PacketsRecvDuplicates (mergeStat now d r) = PacketsRecvDuplicates r"
  by (simp_all add: mergeStat_def merge_fields)

lemma mergeStat_TotalSent:
  "TotalSent (mergeStat now d r) = add64 (TotalSent r) (int (st_PacketsSent d))"
  by (simp add: mergeStat_def merge_fields)

lemma mergeStat_TotalRecv:
  "TotalRecv (mergeStat now d r) = add64 (TotalRecv r) (int (st_PacketsRecv d))"
  by (simp add: mergeStat_def merge_fields)

lemma mergeStat_MinRtt:
  "MinRtt (mergeStat now d r) =
     (if st_MinRtt d > 0 \<and> st_MinRtt d < MinRtt r then st_MinRtt d else MinRtt r)"
  by (simp add: mergeStat_def merge_fields)

lemma mergeStat_MaxRtt:
  "MaxRtt (mergeStat now d r) =
     (if st_MaxRtt d > MaxRtt r then st_MaxRtt d else MaxRtt r)"
  by (simp add: mergeStat_def merge_fields)

lemma mergeStat_AvgRtt:
  "AvgRtt (mergeStat now d r) =
     (if add64 (TotalRecv r) (int (st_PacketsRecv d)) > 0
      then div64
             (add64
               (mul64 (AvgRtt r)
                  (sub64 (add64 (TotalRecv r) (int (st_PacketsRecv d)))
                     (int (st_PacketsRecv d))))
               (mul64 (st_AvgRtt d) (int (st_PacketsRecv d))))
             (add64 (TotalRecv r) (int (st_PacketsRecv d)))
      else AvgRtt r)"
  by (simp add: mergeStat_def merge_fields)

lemma summaryData_Add:
  "summaryData (Add now s stat) k =
     (if k = DecIp stat
      then Some (mergeStat now (Statistic stat)
                  (case summaryData s k of None \<Rightarrow> newSummary stat | Some r \<Rightarrow> r))
      else summaryData s k)"
  by (simp add: Add_def Let_def)

lemma summaryData_scenario:
  "summaryData (Adds (NewPingStatsStore 25) scenario) ''1.1.1.1'' = Some scenario_record"
  by (simp add: scenario_def scenario_record_def summaryData_Add NewPingStatsStore_def
      sample1_def sample2_def mergeStat_def addTotals_def updMinRtt_def updMinRttAvg_def
      updMaxRtt_def updMaxRttAvg_def updAvgRtt_def newSummary_def Hour_def Millisecond_def
      signed_divide_int_def add64_def sub64_def mul64_def div64_def wrap64_def)

section \<open>Machine arithmetic within range\<close>

lemma wrap64_id: "in64 x \<Longrightarrow> wrap64 x = x"
  by (simp add: wrap64_def in64_def)

lemma in64_int: "n < 2 ^ 63 \<Longrightarrow> in64 (int n)"
proof -
  assume "n < 2 ^ 63"
  then have "int n < int (2 ^ 63)" by (simp only: of_nat_less_iff)
  then show ?thesis by (simp add: in64_def)
qed

lemma add64_nat: "a + b < 2 ^ 63 \<Longrightarrow> add64 (int a) (int b) = int (a + b)"
  using wrap64_id [OF in64_int, of "a + b"] by (simp add: add64_def)

lemma sub64_nat: "a + b < 2 ^ 63 \<Longrightarrow> sub64 (int (a + b)) (int b) = int a"
  using wrap64_id [OF in64_int, of a] by (simp add: sub64_def)

section \<open>The totals of a record\<close>

lemma samplesFor_take_drop:
  "samplesFor k evs = samplesFor k (take i evs) @ samplesFor k (drop i evs)"
proof -
  have "samplesFor k (take i evs @ drop i evs)
        = samplesFor k (take i evs) @ samplesFor k (drop i evs)"
      by (simp only: samplesFor_def filter_append map_append)
  then show ?thesis by (simp only: append_take_drop_id)
qed

lemma samplesFor_Cons:
  "samplesFor k ((now, stat) # evs)
   = (if DecIp stat = k then Statistic stat # samplesFor k evs else samplesFor k evs)"
  by (simp add: samplesFor_def)

lemma Adds_totals_existing:
  assumes "summaryData s k = Some r0"
    and "TotalSent r0 = int S0" and "TotalRecv r0 = int W0"
    and "S0 + sum_list (map st_PacketsSent (samplesFor k evs)) < 2 ^ 63"
    and "W0 + sum_list (map st_PacketsRecv (samplesFor k evs)) < 2 ^ 63"
  shows "\<exists>r. summaryData (Adds s evs) k = Some r \<and>
           TotalSent r = int (S0 + sum_list (map st_PacketsSent (samplesFor k evs))) \<and>
           TotalRecv r = int (W0 + sum_list (map st_PacketsRecv (samplesFor k evs)))"
  using assms
proof (induction evs arbitrary: s r0 S0 W0)
  case Nil
  then show ?case by (simp add: samplesFor_def)
next
  case (Cons e evs)
  obtain now stat where e: "e = (now, stat)" by (cases e)
  show ?case
  proof (cases "DecIp stat = k")
    case True
    let ?d = "Statistic stat"
    let ?m = "mergeStat now ?d r0"
    let ?S = "S0 + st_PacketsSent ?d"
    let ?W = "W0 + st_PacketsRecv ?d"
    have sf: "samplesFor k ((now, stat) # evs) = ?d # samplesFor k evs"
      using True by (simp add: samplesFor_Cons)
    have bS: "?S + sum_list (map st_PacketsSent (samplesFor k evs)) < 2 ^ 63"
      and bW: "?W + sum_list (map st_PacketsRecv (samplesFor k evs)) < 2 ^ 63"
      using Cons.prems(4,5) unfolding e sf by (simp_all add: add.assoc)
    have m: "summaryData (Add now s stat) k = Some ?m"
      using Cons.prems(1) True by (auto simp: summaryData_Add)
    have mS: "TotalSent ?m = int ?S"
      using bS add64_nat [of S0 "st_PacketsSent ?d"]
      by (simp add: mergeStat_TotalSent Cons.prems(2))
    have mW: "TotalRecv ?m = int ?W"
      using bW add64_nat [of W0 "st_PacketsRecv ?d"]
      by (simp add: mergeStat_TotalRecv Cons.prems(3))
    from Cons.IH [OF m mS mW bS bW] show ?thesis
      unfolding e sf by (simp add: add.assoc)
  next
    case False
    have sf: "samplesFor k ((now, stat) # evs) = samplesFor k evs"
      using False by (simp add: samplesFor_Cons)
    have m: "summaryData (Add now s stat) k = Some r0"
      using Cons.prems(1) False by (auto simp: summaryData_Add)
    from Cons.IH [OF m Cons.prems(2,3)] Cons.prems(4,5) show ?thesis
      unfolding e sf by simp
  qed
qed

lemma Adds_totals_created:
  assumes "summaryData s k = None"
    and "sum_list (map st_PacketsSent (samplesFor k evs)) < 2 ^ 63"
    and "sum_list (map st_PacketsRecv (samplesFor k evs)) < 2 ^ 63"
    and "summaryData (Adds s evs) k = Some r"
  shows "TotalSent r = int (sum_list (map st_PacketsSent (samplesFor k evs))) \<and>
         TotalRecv r = int (sum_list (map st_PacketsRecv (samplesFor k evs)))"
  using assms
proof (induction evs arbitrary: s)
  case Nil
  then show ?case by simp
next
  case (Cons e evs)
  obtain now stat where e: "e = (now, stat)" by (cases e)
  show ?case
  proof (cases "DecIp stat = k")
    case True
    let ?d = "Statistic stat"
    let ?m = "mergeStat now ?d (newSummary stat)"
    have sf: "samplesFor k ((now, stat) # evs) = ?d # samplesFor k evs"
      using True by (simp add: samplesFor_Cons)
    have bS: "st_PacketsSent ?d + sum_list (map st_PacketsSent (samplesFor k evs)) < 2 ^ 63"
      and bW: "st_PacketsRecv ?d + sum_list (map st_PacketsRecv (samplesFor k evs)) < 2 ^ 63"
      using Cons.prems(2,3) unfolding e sf by simp_all
    have m: "summaryData (Add now s stat) k = Some ?m"
      using Cons.prems(1) True by (auto simp: summaryData_Add)
    have mS: "TotalSent ?m = int (st_PacketsSent ?d)"
      using bS add64_nat [of 0 "st_PacketsSent ?d"]
      by (simp add: mergeStat_TotalSent newSummary_def)
    have mW: "TotalRecv ?m = int (st_PacketsRecv ?d)"
      using bW add64_nat [of 0 "st_PacketsRecv ?d"]
      by (simp add: mergeStat_TotalRecv newSummary_def)
    from Adds_totals_existing [OF m mS mW bS bW] Cons.prems(4) show ?thesis
      unfolding e sf by simp
  next
    case False
    have sf: "samplesFor k ((now, stat) # evs) = samplesFor k evs"
      using False by (simp add: samplesFor_Cons)
    have m: "summaryData (Add now s stat) k = None"
      using Cons.prems(1) False by (auto simp: summaryData_Add)
    from Cons.IH [OF m] Cons.prems(2,3,4) show ?thesis
      unfolding e sf by simp
  qed
qed

lemma summaryData_many:
  "summaryData (Adds (NewPingStatsStore 25) [(1, sample_many), (2, sample_many)]) ''3.3.3.3''
     = Some record_many"
  by (simp add: record_many_def summaryData_Add NewPingStatsStore_def
      sample_many_def mergeStat_def addTotals_def updMinRtt_def updMinRttAvg_def
      updMaxRtt_def updMaxRttAvg_def updAvgRtt_def newSummary_def Hour_def Millisecond_def
      signed_divide_int_def add64_def sub64_def mul64_def div64_def wrap64_def)

text \<open>
  The claim C2 as it stands fails where the total wraps: two results that each sent
  \<open>2 ^ 62\<close> packets and received one satisfy its precondition, and after the second \<open>Add\<close>
  the record has \<open>TotalSent = - 2 ^ 63\<close> and \<open>TotalRecv = 2\<close>.
\<close>

theorem Add_totalSent_wraps_counterexample:
  "st_PacketsRecv (Statistic sample_many) \<le> st_PacketsSent (Statistic sample_many) \<and>
   summaryData (Adds (NewPingStatsStore 25) [(1, sample_many), (2, sample_many)]) ''3.3.3.3''
     = Some record_many \<and>
   TotalSent record_many = - (2 ^ 63) \<and> TotalRecv record_many = 2 \<and>
   \<not> TotalRecv record_many \<le> TotalSent record_many"
  using summaryData_many by (simp add: sample_many_def record_many_def)

text \<open>
  C2, as amended. Start from a fresh store and add results that each received no more
  packets than they sent, and let the packets sent to destination \<open>k\<close> over the whole run
  add up to less than \<open>2 ^ 63\<close>. Then after every \<open>Add\<close> of the run (after the first \<open>i\<close>
  calls, for every \<open>i\<close>), the record of \<open>k\<close> has \<open>TotalRecv \<le> TotalSent\<close>.
\<close>

theorem Add_totalRecv_le_totalSent:
  assumes "\<forall>e\<in>set evs. st_PacketsRecv (Statistic (snd e)) \<le> st_PacketsSent (Statistic (snd e))"
    and "sum_list (map st_PacketsSent (samplesFor k evs)) < 2 ^ 63"
    and "summaryData (Adds (NewPingStatsStore n) (take i evs)) k = Some r"
  shows "TotalRecv r \<le> TotalSent r"
proof -
  let ?xs = "samplesFor k (take i evs)"
  have le: "sum_list (map st_PacketsRecv ?xs) \<le> sum_list (map st_PacketsSent ?xs)"
  proof (rule sum_list_mono)
    fix d assume "d \<in> set ?xs"
    then obtain e where "e \<in> set (take i evs)" "d = Statistic (snd e)"
      by (auto simp: samplesFor_def)
    with assms(1) show "st_PacketsRecv d \<le> st_PacketsSent d"
      by (auto dest: in_set_takeD)
  qed
  have "sum_list (map st_PacketsSent (samplesFor k evs))
        = sum_list (map st_PacketsSent (?xs @ samplesFor k (drop i evs)))"
    by (simp only: samplesFor_take_drop [symmetric])
  then have "sum_list (map st_PacketsSent ?xs) \<le> sum_list (map st_PacketsSent (samplesFor k evs))"
    by simp
  with assms(2) have bS: "sum_list (map st_PacketsSent ?xs) < 2 ^ 63" by simp
  with le have bW: "sum_list (map st_PacketsRecv ?xs) < 2 ^ 63" by simp
  have none: "summaryData (NewPingStatsStore n) k = None"
    by (simp add: NewPingStatsStore_def)
  from Adds_totals_created [OF none bS bW assms(3)] le show ?thesis by simp
qed

theorem Add_totalRecv_le_totalSent_witness:
  "st_PacketsRecv (Statistic sample1) \<le> st_PacketsSent (Statistic sample1) \<and>
   st_PacketsRecv (Statistic sample2) \<le> st_PacketsSent (Statistic sample2) \<and>
   sum_list (map st_PacketsSent (samplesFor ''1.1.1.1'' scenario)) = 6 \<and>
   (6::nat) < 2 ^ 63 \<and>
   summaryData (Adds (NewPingStatsStore 25) (take 2 scenario)) ''1.1.1.1''
     = Some scenario_record \<and>
   TotalRecv scenario_record = 5 \<and> TotalSent scenario_record = 6 \<and>
   TotalRecv scenario_record \<le> TotalSent scenario_record"
proof -
  have h: "\<forall>e\<in>set scenario.
             st_PacketsRecv (Statistic (snd e)) \<le> st_PacketsSent (Statistic (snd e))"
    by (simp add: scenario_def sample1_def sample2_def)
  have s: "sum_list (map st_PacketsSent (samplesFor ''1.1.1.1'' scenario)) = 6"
    by (simp add: samplesFor_def scenario_def sample1_def sample2_def)
  have b: "sum_list (map st_PacketsSent (samplesFor ''1.1.1.1'' scenario)) < 2 ^ 63"
    unfolding s by simp
  have t: "take 2 scenario = scenario" by (simp add: scenario_def)
  have r: "summaryData (Adds (NewPingStatsStore 25) (take 2 scenario)) ''1.1.1.1''
             = Some scenario_record"
    unfolding t by (rule summaryData_scenario)
  from Add_totalRecv_le_totalSent [OF h b r] h s r show ?thesis
    by (simp add: scenario_def scenario_record_def)
qed

section \<open>Results with every packet lost\<close>

text \<open>
  C3. When the consumer receives a result whose \<open>PacketLoss\<close> is 100, the store stays as
  it is (no record is created or changed, and the recent results stay too), and the
  count of processed results still goes up by one.
\<close>

theorem HandleDPing_total_loss_skipped:
  assumes "st_PacketLoss (Statistic stats) = 100"
  shows "store (HandleDPing_recv c (now, stats)) = store c \<and>
         processedCount (HandleDPing_recv c (now, stats)) = processedCount c + 1"
  using assms by (simp add: HandleDPing_recv_def Let_def)

theorem HandleDPing_total_loss_skipped_witness:
  "st_PacketLoss (Statistic sample_lost) = 100 \<and>
   store (HandleDPing_recv
            \<lparr>store = NewPingStatsStore 25, processedCount = 0, printed = []\<rparr> (1, sample_lost))
     = NewPingStatsStore 25 \<and>
   processedCount (HandleDPing_recv
            \<lparr>store = NewPingStatsStore 25, processedCount = 0, printed = []\<rparr> (1, sample_lost))
     = 1"
proof -
  have h: "st_PacketLoss (Statistic sample_lost) = 100"
    by (simp add: sample_lost_def)
  from HandleDPing_total_loss_skipped [OF h, of
      "\<lparr>store = NewPingStatsStore 25, processedCount = 0, printed = []\<rparr>" 1] h
  show ?thesis by simp
qed

lemma summaryData_after_sample1:
  "summaryData (Adds (NewPingStatsStore 25) [(1, sample1)]) ''1.1.1.1''
     = Some record_after_sample1"
  by (simp add: record_after_sample1_def summaryData_Add NewPingStatsStore_def
      sample1_def mergeStat_def addTotals_def updMinRtt_def updMinRttAvg_def
      updMaxRtt_def updMaxRttAvg_def updAvgRtt_def newSummary_def Hour_def Millisecond_def
      signed_divide_int_def add64_def sub64_def mul64_def div64_def wrap64_def)

lemma Adds_scenario_split:
  "Adds (Adds (NewPingStatsStore 25) [(1, sample1)]) [(2, sample2)]
     = Adds (NewPingStatsStore 25) scenario"
  by (simp add: scenario_def)

section \<open>Minimum and maximum round-trip time\<close>

lemma Adds_rtt_monotone:
  "summaryData s k = Some r \<Longrightarrow>
   \<exists>r'. summaryData (Adds s evs) k = Some r' \<and> MinRtt r' \<le> MinRtt r \<and> MaxRtt r \<le> MaxRtt r'"
proof (induction evs arbitrary: s r)
  case Nil
  then show ?case by simp
next
  case (Cons e evs)
  obtain now stat where e: "e = (now, stat)" by (cases e)
  show ?case
  proof (cases "k = DecIp stat")
    case True
    let ?m = "mergeStat now (Statistic stat) r"
    have "summaryData (Add now s stat) k = Some ?m"
      using Cons.prems True by (simp add: summaryData_Add)
    from Cons.IH [OF this] obtain r' where
      r': "summaryData (Adds (Add now s stat) evs) k = Some r'"
        "MinRtt r' \<le> MinRtt ?m" "MaxRtt ?m \<le> MaxRtt r'" by blast
    have "MinRtt ?m \<le> MinRtt r" "MaxRtt r \<le> MaxRtt ?m"
      by (simp_all add: mergeStat_MinRtt mergeStat_MaxRtt)
    with r' show ?thesis unfolding e by (auto intro: order_trans)
  next
    case False
    then have "summaryData (Add now s stat) k = Some r"
      using Cons.prems by (simp add: summaryData_Add)
    from Cons.IH [OF this] show ?thesis unfolding e by simp
  qed
qed

text \<open>
  C5. Let the store hold a record \<open>r\<close> for the destination of \<open>stat\<close>. Adding \<open>stat\<close>
  sets \<open>MinRtt\<close> to the minimum of its old value and the sample's \<open>MinRtt\<close> when the
  sample's is above zero and leaves it as it is otherwise, and sets \<open>MaxRtt\<close> to the
  maximum of its old value and the sample's \<open>MaxRtt\<close>. Over this call and any further
  calls \<open>evs\<close>, \<open>MinRtt\<close> never goes up and \<open>MaxRtt\<close> never goes down.
\<close>

theorem Add_minRtt_maxRtt_monotone:
  assumes "summaryData s (DecIp stat) = Some r"
  shows "\<exists>r1 r2.
           summaryData (Add now s stat) (DecIp stat) = Some r1 \<and>
           MinRtt r1 = (if 0 < st_MinRtt (Statistic stat)
                        then min (MinRtt r) (st_MinRtt (Statistic stat)) else MinRtt r) \<and>
           MaxRtt r1 = max (MaxRtt r) (st_MaxRtt (Statistic stat)) \<and>
           summaryData (Adds (Add now s stat) evs) (DecIp stat) = Some r2 \<and>
           MinRtt r2 \<le> MinRtt r1 \<and> MinRtt r1 \<le> MinRtt r \<and>
           MaxRtt r \<le> MaxRtt r1 \<and> MaxRtt r1 \<le> MaxRtt r2"
proof -
  let ?r1 = "mergeStat now (Statistic stat) r"
  have r1: "summaryData (Add now s stat) (DecIp stat) = Some ?r1"
    using assms by (simp add: summaryData_Add)
  from Adds_rtt_monotone [OF r1, of evs] obtain r2 where
    "summaryData (Adds (Add now s stat) evs) (DecIp stat) = Some r2"
    "MinRtt r2 \<le> MinRtt ?r1" "MaxRtt ?r1 \<le> MaxRtt r2" by blast
  moreover have "MinRtt ?r1 = (if 0 < st_MinRtt (Statistic stat)
                        then min (MinRtt r) (st_MinRtt (Statistic stat)) else MinRtt r)"
    by (simp add: mergeStat_MinRtt min_def)
  moreover have "MaxRtt ?r1 = max (MaxRtt r) (st_MaxRtt (Statistic stat))"
    by (simp add: mergeStat_MaxRtt max_def)
  moreover have "MinRtt ?r1 \<le> MinRtt r" "MaxRtt r \<le> MaxRtt ?r1"
    by (simp_all add: mergeStat_MinRtt mergeStat_MaxRtt)
  ultimately show ?thesis using r1 by blast
qed

theorem Add_minRtt_maxRtt_monotone_witness:
  "summaryData (Adds (NewPingStatsStore 25) [(1, sample1)]) (DecIp sample2)
     = Some record_after_sample1 \<and>
   MinRtt record_after_sample1 = 10 * Millisecond \<and>
   MaxRtt record_after_sample1 = 30 * Millisecond \<and>
   (\<exists>r1. summaryData (Add 2 (Adds (NewPingStatsStore 25) [(1, sample1)]) sample2)
            (DecIp sample2) = Some r1 \<and>
         MinRtt r1 = 8 * Millisecond \<and> MaxRtt r1 = 30 * Millisecond)"
proof -
  have k: "DecIp sample2 = ''1.1.1.1''" by (simp add: sample2_def)
  have h: "summaryData (Adds (NewPingStatsStore 25) [(1, sample1)]) (DecIp sample2)
             = Some record_after_sample1"
    unfolding k by (rule summaryData_after_sample1)
  from Add_minRtt_maxRtt_monotone [OF h, of 2 "[]"] h show ?thesis
    by (auto simp: record_after_sample1_def sample2_def Millisecond_def)
qed

section \<open>Fields written at creation only\<close>

lemma same_identity_mergeStat: "same_identity (mergeStat now d r) r"
  by (simp add: same_identity_def mergeStat_frame)

lemma same_identity_trans: "same_identity a b \<Longrightarrow> same_identity b c \<Longrightarrow> same_identity a c"
  by (simp add: same_identity_def)

lemma Adds_existing:
  "summaryData s k = Some r0 \<Longrightarrow>
   \<exists>r. summaryData (Adds s evs) k = Some r \<and> same_identity r r0"
proof (induction evs arbitrary: s r0)
  case Nil
  then show ?case by (simp add: same_identity_def)
next
  case (Cons e evs)
  obtain now stat where e: "e = (now, stat)" by (cases e)
  show ?case
  proof (cases "k = DecIp stat")
    case True
    let ?m = "mergeStat now (Statistic stat) r0"
    have "summaryData (Add now s stat) k = Some ?m"
      using Cons.prems True by (simp add: summaryData_Add)
    from Cons.IH [OF this] obtain r where
      "summaryData (Adds (Add now s stat) evs) k = Some r" "same_identity r ?m" by blast
    then show ?thesis unfolding e
      by (auto intro: same_identity_trans same_identity_mergeStat)
  next
    case False
    then have "summaryData (Add now s stat) k = Some r0"
      using Cons.prems by (simp add: summaryData_Add)
    from Cons.IH [OF this] show ?thesis unfolding e by simp
  qed
qed

lemma Adds_created:
  "summaryData s k = None \<Longrightarrow> summaryData (Adds s evs) k = Some r \<Longrightarrow>
   \<exists>st. firstFor k evs = Some st \<and> same_identity r (newSummary st)"
proof (induction evs arbitrary: s)
  case Nil
  then show ?case by simp
next
  case (Cons e evs)
  obtain now stat where e: "e = (now, stat)" by (cases e)
  show ?case
  proof (cases "k = DecIp stat")
    case True
    let ?m = "mergeStat now (Statistic stat) (newSummary stat)"
    have m: "summaryData (Add now s stat) k = Some ?m"
      using Cons.prems(1) True by (simp add: summaryData_Add)
    from Adds_existing [OF m, of evs] Cons.prems(2) have "same_identity r ?m"
      unfolding e by simp
    then have "same_identity r (newSummary stat)"
      by (rule same_identity_trans) (rule same_identity_mergeStat)
    moreover have "firstFor k (e # evs) = Some stat"
      using True by (simp add: firstFor_def e)
    ultimately show ?thesis by simp
  next
    case False
    then have n: "summaryData (Add now s stat) k = None"
      using Cons.prems(1) by (simp add: summaryData_Add)
    have "summaryData (Adds (Add now s stat) evs) k = Some r"
      using Cons.prems(2) unfolding e by simp
    from Cons.IH [OF n this] False show ?thesis
      by (simp add: firstFor_def e)
  qed
qed

text \<open>
  C7. Let \<open>r\<close> be the record of destination \<open>k\<close> after a run \<open>evs\<close> of \<open>Add\<close> calls on the
  store \<open>s\<close>. If \<open>s\<close> already had a record for \<open>k\<close>, then \<open>r\<close> has the region and ISP of that
  record, whatever region and ISP the results of the run carry. If \<open>s\<close> had none, then \<open>r\<close>
  has the region and ISP of the first result of the run for \<open>k\<close>, the one that created it.
\<close>

theorem Add_keeps_region_isp:
  assumes "summaryData (Adds s evs) k = Some r"
  shows "(\<forall>r0. summaryData s k = Some r0 \<longrightarrow> Region r = Region r0 \<and> Isp r = Isp r0) \<and>
         (summaryData s k = None \<longrightarrow>
            (\<exists>st. firstFor k evs = Some st \<and> Region r = ps_Region st \<and> Isp r = ps_Isp st))"
proof (intro conjI allI impI)
  fix r0 assume "summaryData s k = Some r0"
  from Adds_existing [OF this, of evs] assms have "same_identity r r0" by simp
  then show "Region r = Region r0" "Isp r = Isp r0" by (simp_all add: same_identity_def)
next
  assume "summaryData s k = None"
  from Adds_created [OF this assms] obtain st where
    "firstFor k evs = Some st" "same_identity r (newSummary st)" by blast
  then show "\<exists>st. firstFor k evs = Some st \<and> Region r = ps_Region st \<and> Isp r = ps_Isp st"
    by (auto simp: same_identity_def newSummary_def)
qed

theorem Add_keeps_region_isp_witness:
  "summaryData (NewPingStatsStore 25) ''1.1.1.1'' = None \<and>
   summaryData (Adds (NewPingStatsStore 25) scenario) ''1.1.1.1'' = Some scenario_record \<and>
   firstFor ''1.1.1.1'' scenario = Some sample1 \<and>
   Region scenario_record = ps_Region sample1 \<and> Isp scenario_record = ps_Isp sample1 \<and>
   ps_Region sample2 \<noteq> ps_Region sample1 \<and> ps_Isp sample2 \<noteq> ps_Isp sample1 \<and>
   summaryData (Adds (NewPingStatsStore 25) [(1, sample1)]) ''1.1.1.1''
     = Some record_after_sample1 \<and>
   summaryData (Adds (Adds (NewPingStatsStore 25) [(1, sample1)]) [(2, sample2)]) ''1.1.1.1''
     = Some scenario_record \<and>
   Region scenario_record = Region record_after_sample1 \<and>
   Isp scenario_record = Isp record_after_sample1"
proof -
  have n: "summaryData (NewPingStatsStore 25) ''1.1.1.1'' = None"
    by (simp add: NewPingStatsStore_def)
  have f: "firstFor ''1.1.1.1'' scenario = Some sample1"
    by (simp add: firstFor_def scenario_def sample1_def)
  have t: "summaryData (Adds (Adds (NewPingStatsStore 25) [(1, sample1)]) [(2, sample2)])
             ''1.1.1.1'' = Some scenario_record"
    unfolding Adds_scenario_split by (rule summaryData_scenario)
  have d: "ps_Region sample2 \<noteq> ps_Region sample1 \<and> ps_Isp sample2 \<noteq> ps_Isp sample1"
    by (simp add: sample1_def sample2_def)
  from Add_keeps_region_isp [OF summaryData_scenario] n f
  have c: "Region scenario_record = ps_Region sample1 \<and> Isp scenario_record = ps_Isp sample1"
    by simp
  from Add_keeps_region_isp [OF t] summaryData_after_sample1
  have k: "Region scenario_record = Region record_after_sample1 \<and>
           Isp scenario_record = Isp record_after_sample1"
    by simp
  from n summaryData_scenario f c d summaryData_after_sample1 t k
  show ?thesis by blast
qed

section \<open>The running average\<close>

lemma sdiv_mult_self:
  fixes v :: int
  assumes "0 < w"
  shows "(v * w) sdiv w = v"
proof -
  have "\<bar>v * w\<bar> div \<bar>w\<bar> = \<bar>v\<bar>"
    using assms by (simp add: abs_mult)
  moreover have "sgn (v * w) * sgn w = sgn v"
    using assms by (simp add: sgn_mult)
  ultimately show ?thesis
    by (simp add: signed_divide_int_def mult_sgn_abs)
qed

lemma sdiv_nonneg:
  fixes N D :: int
  assumes "0 \<le> N" "0 < D"
  shows "N sdiv D = N div D"
  using assms by (cases "N = 0") (simp_all add: signed_divide_int_def)

lemma in64_between: "0 \<le> x \<Longrightarrow> x \<le> y \<Longrightarrow> y < 2 ^ 63 \<Longrightarrow> in64 x"
  by (simp add: in64_def)

text \<open>
  One merge within range: the record has received \<open>W\<close> packets and holds a mean between
  0 and the bound \<open>B\<close>, the sample's average is in that range too, and \<open>B\<close> times the new
  total of received packets is below \<open>2 ^ 63\<close>. Then no operation of the \<open>AvgRtt\<close> statement
  wraps, and it computes the rule of the specification.
\<close>

lemma mergeStat_AvgRtt_rule:
  assumes w: "0 < st_PacketsRecv d"
    and v: "0 \<le> st_AvgRtt d" "st_AvgRtt d \<le> B"
    and W: "TotalRecv r = int W0"
    and m: "0 \<le> AvgRtt r" "AvgRtt r \<le> B"
    and B: "0 < B" "B * int (W0 + st_PacketsRecv d) < 2 ^ 63"
  shows "TotalRecv (mergeStat now d r) = int (W0 + st_PacketsRecv d)"
    and "AvgRtt (mergeStat now d r) = merge_rule (AvgRtt r) W0 (st_AvgRtt d) (st_PacketsRecv d)"
    and "0 \<le> AvgRtt (mergeStat now d r)"
    and "AvgRtt (mergeStat now d r) \<le> B"
proof -
  let ?w = "st_PacketsRecv d"
  let ?v = "st_AvgRtt d"
  let ?m = "AvgRtt r"
  let ?D = "int (W0 + ?w)"
  let ?N = "?m * int W0 + ?v * int ?w"
  have D0: "0 < ?D" using w by simp
  have "1 * ?D \<le> B * ?D" using B(1) D0 by (intro mult_right_mono) simp_all
  then have DB: "?D \<le> B * ?D" by simp
  from DB B(2) have DD: "?D < 2 ^ 63" by linarith
  have mW: "0 \<le> ?m * int W0" using m(1) by simp
  have vw: "0 \<le> ?v * int ?w" using v(1) by simp
  have mW': "?m * int W0 \<le> B * int W0" using m(2) by (simp add: mult_right_mono)
  have vw': "?v * int ?w \<le> B * int ?w" using v(2) by (simp add: mult_right_mono)
  have BD: "B * ?D = B * int W0 + B * int ?w" by (simp add: algebra_simps)
  have N0: "0 \<le> ?N" using mW vw by simp
  have NB: "?N \<le> B * ?D" using mW' vw' BD by simp
  have BW0: "0 \<le> B * int W0" and Bw0: "0 \<le> B * int ?w" using B(1) by simp_all
  have i1: "in64 ?D" using D0 DD by (simp add: in64_def)
  have i2: "in64 (int W0)" using i1 by (simp add: in64_def)
  have i3: "in64 (?m * int W0)"
    using mW mW' Bw0 BD B(2) by (intro in64_between [of _ "B * ?D"]) simp_all
  have i4: "in64 (?v * int ?w)"
    using vw vw' BW0 BD B(2) by (intro in64_between [of _ "B * ?D"]) simp_all
  have i5: "in64 ?N" using N0 NB B(2) by (rule in64_between)
  have q: "?N sdiv ?D = ?N div ?D" using N0 D0 by (rule sdiv_nonneg)
  have q0: "0 \<le> ?N div ?D" using N0 D0 by (simp add: pos_imp_zdiv_nonneg_iff)
  have "?N = ?N div ?D * ?D + ?N mod ?D" by (rule div_mult_mod_eq [symmetric])
  moreover have "0 \<le> ?N mod ?D" using D0 by (rule pos_mod_sign)
  ultimately have qD: "?N div ?D * ?D \<le> ?N" by linarith
  have qB: "?N div ?D \<le> B"
  proof -
    from qD NB have "?N div ?D * ?D \<le> B * ?D" by linarith
    then show ?thesis using D0 by (simp only: mult_le_cancel_right)
  qed
  have qN: "?N div ?D \<le> ?N"
  proof -
    have "?N div ?D * 1 \<le> ?N div ?D * ?D"
      using q0 D0 by (intro mult_left_mono) simp_all
    with qD show ?thesis by simp
  qed
  have i6: "in64 (?N div ?D)" using q0 qN i5 by (simp add: in64_def)
  have T: "add64 (TotalRecv r) (int ?w) = ?D"
    using wrap64_id [OF i1] by (simp add: add64_def W)
  have S: "sub64 ?D (int ?w) = int W0"
    using wrap64_id [OF i2] by (simp add: sub64_def)
  have M1: "mul64 ?m (int W0) = ?m * int W0"
    using wrap64_id [OF i3] by (simp add: mul64_def)
  have M2: "mul64 ?v (int ?w) = ?v * int ?w"
    using wrap64_id [OF i4] by (simp add: mul64_def)
  have A: "add64 (?m * int W0) (?v * int ?w) = ?N"
    using wrap64_id [OF i5] by (simp add: add64_def)
  have Q: "div64 ?N ?D = ?N div ?D"
    unfolding div64_def q by (rule wrap64_id [OF i6])
  have avg: "AvgRtt (mergeStat now d r) = ?N div ?D"
    using D0 by (simp only: mergeStat_AvgRtt T S M1 M2 A Q if_True)
  show "TotalRecv (mergeStat now d r) = ?D"
    by (simp only: mergeStat_TotalRecv T)
  show "AvgRtt (mergeStat now d r) = merge_rule ?m W0 ?v ?w"
  proof (cases "W0 = 0")
    case True
    have "?N div ?D = (?v * int ?w) sdiv int ?w"
      using q True by simp
    also have "\<dots> = ?v" using w by (simp add: sdiv_mult_self)
    finally show ?thesis using True by (simp add: avg merge_rule_def)
  next
    case False
    then show ?thesis using q by (simp add: avg merge_rule_def)
  qed
  show "0 \<le> AvgRtt (mergeStat now d r)" using q0 by (simp only: avg)
  show "AvgRtt (mergeStat now d r) \<le> B" using qB by (simp only: avg)
qed

lemma mergeStat_TotalSent_exact:
  assumes "TotalSent r = int S0" and "S0 + st_PacketsSent d < 2 ^ 63"
  shows "TotalSent (mergeStat now d r) = int (S0 + st_PacketsSent d)"
  using assms add64_nat [of S0 "st_PacketsSent d"] by (simp add: mergeStat_TotalSent)

lemma Adds_mean_existing:
  assumes "\<forall>e\<in>set evs. DecIp (snd e) = k \<longrightarrow>
             0 < st_PacketsRecv (Statistic (snd e)) \<and>
             0 \<le> st_AvgRtt (Statistic (snd e)) \<and> st_AvgRtt (Statistic (snd e)) \<le> B"
    and "summaryData s k = Some r0"
    and "TotalSent r0 = int S0" and "TotalRecv r0 = int W0"
    and "0 \<le> AvgRtt r0" and "AvgRtt r0 \<le> B" and "0 < B"
    and "B * int (W0 + sum_list (map st_PacketsRecv (samplesFor k evs))) < 2 ^ 63"
    and "S0 + sum_list (map st_PacketsSent (samplesFor k evs)) < 2 ^ 63"
  shows "\<exists>r. summaryData (Adds s evs) k = Some r \<and>
           TotalSent r = int (S0 + sum_list (map st_PacketsSent (samplesFor k evs))) \<and>
           TotalRecv r = int (W0 + sum_list (map st_PacketsRecv (samplesFor k evs))) \<and>
           AvgRtt r = running_mean (AvgRtt r0) W0 (weighted (samplesFor k evs))"
  using assms
proof (induction evs arbitrary: s r0 S0 W0)
  case Nil
  then show ?case by (simp add: samplesFor_def weighted_def)
next
  case (Cons e evs)
  obtain now stat where e: "e = (now, stat)" by (cases e)
  have rest: "\<forall>e\<in>set evs. DecIp (snd e) = k \<longrightarrow>
             0 < st_PacketsRecv (Statistic (snd e)) \<and>
             0 \<le> st_AvgRtt (Statistic (snd e)) \<and> st_AvgRtt (Statistic (snd e)) \<le> B"
    using Cons.prems(1) by simp
  show ?case
  proof (cases "DecIp stat = k")
    case True
    let ?d = "Statistic stat"
    let ?m = "mergeStat now ?d r0"
    let ?W = "W0 + st_PacketsRecv ?d"
    let ?S = "S0 + st_PacketsSent ?d"
    let ?R = "sum_list (map st_PacketsRecv (samplesFor k evs))"
    have sf: "samplesFor k ((now, stat) # evs) = ?d # samplesFor k evs"
      using True by (simp add: samplesFor_Cons)
    have d: "0 < st_PacketsRecv ?d" "0 \<le> st_AvgRtt ?d" "st_AvgRtt ?d \<le> B"
      using Cons.prems(1) True by (simp_all add: e)
    have bW: "B * int (?W + ?R) < 2 ^ 63"
      using Cons.prems(8) unfolding e sf by (simp add: add.assoc)
    have bS: "?S + sum_list (map st_PacketsSent (samplesFor k evs)) < 2 ^ 63"
      using Cons.prems(9) unfolding e sf by (simp add: add.assoc)
    have "B * int ?W \<le> B * int (?W + ?R)"
      using Cons.prems(7) by (intro mult_left_mono) simp_all
    with bW have bW1: "B * int ?W < 2 ^ 63" by linarith
    note st = mergeStat_AvgRtt_rule [OF d Cons.prems(4,5,6,7) bW1, of now]
    have mS: "TotalSent ?m = int ?S"
      using bS by (intro mergeStat_TotalSent_exact [OF Cons.prems(3)]) simp
    have m: "summaryData (Add now s stat) k = Some ?m"
      using Cons.prems(2) True by (auto simp: summaryData_Add)
    from Cons.IH [OF rest m mS st(1,3,4) Cons.prems(7) bW bS]
    show ?thesis
      unfolding e sf by (simp add: weighted_def st(2) add.assoc)
  next
    case False
    have sf: "samplesFor k ((now, stat) # evs) = samplesFor k evs"
      using False by (simp add: samplesFor_Cons)
    have m: "summaryData (Add now s stat) k = Some r0"
      using Cons.prems(2) False by (auto simp: summaryData_Add)
    from Cons.IH [OF rest m Cons.prems(3,4,5,6,7)] Cons.prems(8,9) show ?thesis
      unfolding e sf by simp
  qed
qed

lemma Adds_mean_created:
  assumes "\<forall>e\<in>set evs. DecIp (snd e) = k \<longrightarrow>
             0 < st_PacketsRecv (Statistic (snd e)) \<and>
             0 \<le> st_AvgRtt (Statistic (snd e)) \<and> st_AvgRtt (Statistic (snd e)) \<le> B"
    and "summaryData s k = None"
    and "samplesFor k evs \<noteq> []"
    and "0 < B"
    and "B * int (sum_list (map st_PacketsRecv (samplesFor k evs))) < 2 ^ 63"
    and "sum_list (map st_PacketsSent (samplesFor k evs)) < 2 ^ 63"
  shows "\<exists>r. summaryData (Adds s evs) k = Some r \<and>
           TotalSent r = int (sum_list (map st_PacketsSent (samplesFor k evs))) \<and>
           TotalRecv r = int (sum_list (map st_PacketsRecv (samplesFor k evs))) \<and>
           AvgRtt r = running_mean 0 0 (weighted (samplesFor k evs))"
  using assms
proof (induction evs arbitrary: s)
  case Nil
  then show ?case by (simp add: samplesFor_def)
next
  case (Cons e evs)
  obtain now stat where e: "e = (now, stat)" by (cases e)
  have rest: "\<forall>e\<in>set evs. DecIp (snd e) = k \<longrightarrow>
             0 < st_PacketsRecv (Statistic (snd e)) \<and>
             0 \<le> st_AvgRtt (Statistic (snd e)) \<and> st_AvgRtt (Statistic (snd e)) \<le> B"
    using Cons.prems(1) by simp
  show ?case
  proof (cases "DecIp stat = k")
    case True
    let ?d = "Statistic stat"
    let ?n = "newSummary stat"
    let ?m = "mergeStat now ?d ?n"
    let ?R = "sum_list (map st_PacketsRecv (samplesFor k evs))"
    have sf: "samplesFor k ((now, stat) # evs) = ?d # samplesFor k evs"
      using True by (simp add: samplesFor_Cons)
    have d: "0 < st_PacketsRecv ?d" "0 \<le> st_AvgRtt ?d" "st_AvgRtt ?d \<le> B"
      using Cons.prems(1) True by (simp_all add: e)
    have n: "TotalSent ?n = int 0" "TotalRecv ?n = int 0" "0 \<le> AvgRtt ?n" "AvgRtt ?n \<le> B"
      "AvgRtt ?n = 0"
      using Cons.prems(4) by (simp_all add: newSummary_def)
    have bW: "B * int (0 + st_PacketsRecv ?d + ?R) < 2 ^ 63"
      using Cons.prems(5) unfolding e sf by simp
    have bS: "0 + st_PacketsSent ?d + sum_list (map st_PacketsSent (samplesFor k evs)) < 2 ^ 63"
      using Cons.prems(6) unfolding e sf by simp
    have "B * int (0 + st_PacketsRecv ?d) \<le> B * int (0 + st_PacketsRecv ?d + ?R)"
      using Cons.prems(4) by (intro mult_left_mono) simp_all
    with bW have bW1: "B * int (0 + st_PacketsRecv ?d) < 2 ^ 63" by linarith
    note st = mergeStat_AvgRtt_rule [OF d n(2,3,4) Cons.prems(4) bW1, of now]
    have mS: "TotalSent ?m = int (0 + st_PacketsSent ?d)"
      using bS by (intro mergeStat_TotalSent_exact [OF n(1)]) simp
    have m: "summaryData (Add now s stat) k = Some ?m"
      using Cons.prems(2) True by (auto simp: summaryData_Add)
    from Adds_mean_existing [OF rest m mS st(1,3,4) Cons.prems(4) bW bS]
    show ?thesis
      unfolding e sf by (simp add: weighted_def st(2) n(5))
  next
    case False
    have sf: "samplesFor k ((now, stat) # evs) = samplesFor k evs"
      using False by (simp add: samplesFor_Cons)
    have m: "summaryData (Add now s stat) k = None"
      using Cons.prems(2) False by (auto simp: summaryData_Add)
    from Cons.prems(3) have ne: "samplesFor k evs \<noteq> []" unfolding e sf .
    from Cons.IH [OF rest m ne Cons.prems(4)] Cons.prems(5,6) show ?thesis
      unfolding e sf by simp
  qed
qed

lemma summaryData_far:
  "summaryData (Adds (NewPingStatsStore 25) [(1, sample_far)]) ''4.4.4.4'' = Some record_far"
  by (simp add: record_far_def summaryData_Add NewPingStatsStore_def
      sample_far_def mergeStat_def addTotals_def updMinRtt_def updMinRttAvg_def
      updMaxRtt_def updMaxRttAvg_def updAvgRtt_def newSummary_def Hour_def
      signed_divide_int_def add64_def sub64_def mul64_def div64_def wrap64_def)

text \<open>
  The claim C1 as it stands fails where a product wraps: a first result with four
  received packets and an average of \<open>2 ^ 62\<close> nanoseconds satisfies its conditions, the
  rule gives the mean \<open>2 ^ 62\<close>, and \<open>Add\<close> stores 0, since \<open>2 ^ 62 * 4\<close> is \<open>2 ^ 64\<close>.
\<close>

theorem Add_avgRtt_wraps_counterexample:
  "0 < st_PacketsRecv (Statistic sample_far) \<and>
   st_PacketLoss (Statistic sample_far) < 100 \<and>
   samplesFor ''4.4.4.4'' [(1, sample_far)] = [Statistic sample_far] \<and>
   summaryData (Adds (NewPingStatsStore 25) [(1, sample_far)]) ''4.4.4.4'' = Some record_far \<and>
   AvgRtt record_far = 0 \<and>
   running_mean 0 0 (weighted [Statistic sample_far]) = 2 ^ 62 \<and>
   AvgRtt record_far \<noteq> running_mean 0 0 (weighted [Statistic sample_far])"
  using summaryData_far
  by (simp add: sample_far_def record_far_def samplesFor_def weighted_def merge_rule_def)

text \<open>
  C1, as amended. Start from a fresh store and add results; let those for destination
  \<open>k\<close> each have received at least one packet and have an average round-trip time between
  0 and a bound \<open>B\<close>, let there be one at least, and let \<open>B\<close> times their received packets
  and their sent packets each add up to less than \<open>2 ^ 63\<close>, so that no operation of \<open>Add\<close>
  wraps. Then the record of \<open>k\<close> has the sums of their sent and received packets as totals,
  and its \<open>AvgRtt\<close> is the mean the incremental rule computes from their averages weighted
  by their received packets: the first gives its own average, each later one
  \<open>(m\<cdot>W + v\<cdot>w) / (W + w)\<close>. Results for other destinations in between do not matter.
\<close>

theorem Add_avgRtt_weighted_mean:
  assumes "\<forall>e\<in>set evs. DecIp (snd e) = k \<longrightarrow>
             0 < st_PacketsRecv (Statistic (snd e)) \<and>
             0 \<le> st_AvgRtt (Statistic (snd e)) \<and> st_AvgRtt (Statistic (snd e)) \<le> B"
    and "samplesFor k evs \<noteq> []"
    and "0 < B"
    and "B * int (sum_list (map st_PacketsRecv (samplesFor k evs))) < 2 ^ 63"
    and "sum_list (map st_PacketsSent (samplesFor k evs)) < 2 ^ 63"
  shows "\<exists>r. summaryData (Adds (NewPingStatsStore n) evs) k = Some r \<and>
           TotalSent r = int (sum_list (map st_PacketsSent (samplesFor k evs))) \<and>
           TotalRecv r = int (sum_list (map st_PacketsRecv (samplesFor k evs))) \<and>
           AvgRtt r = running_mean 0 0 (weighted (samplesFor k evs))"
  by (rule Adds_mean_created [OF assms(1) _ assms(2,3,4,5)]) (simp add: NewPingStatsStore_def)

theorem Add_avgRtt_weighted_mean_witness:
  "0 < st_PacketsRecv (Statistic sample1) \<and> 0 < st_PacketsRecv (Statistic sample2) \<and>
   0 \<le> st_AvgRtt (Statistic sample1) \<and> st_AvgRtt (Statistic sample1) \<le> Hour \<and>
   0 \<le> st_AvgRtt (Statistic sample2) \<and> st_AvgRtt (Statistic sample2) \<le> Hour \<and>
   samplesFor ''1.1.1.1'' scenario = [Statistic sample1, Statistic sample2] \<and>
   0 < Hour \<and>
   Hour * int (sum_list (map st_PacketsRecv [Statistic sample1, Statistic sample2])) < 2 ^ 63 \<and>
   sum_list (map st_PacketsSent [Statistic sample1, Statistic sample2]) < 2 ^ 63 \<and>
   running_mean 0 0 (weighted (samplesFor ''1.1.1.1'' scenario)) = 18 * Millisecond \<and>
   (\<exists>r. summaryData (Adds (NewPingStatsStore 25) scenario) ''1.1.1.1'' = Some r \<and>
        TotalSent r = 6 \<and> TotalRecv r = 5 \<and> AvgRtt r = 18 * Millisecond)"
proof -
  have h: "\<forall>e\<in>set scenario. DecIp (snd e) = ''1.1.1.1'' \<longrightarrow>
             0 < st_PacketsRecv (Statistic (snd e)) \<and>
             0 \<le> st_AvgRtt (Statistic (snd e)) \<and> st_AvgRtt (Statistic (snd e)) \<le> Hour"
    by (simp add: scenario_def sample1_def sample2_def Hour_def Millisecond_def)
  have f: "samplesFor ''1.1.1.1'' scenario = [Statistic sample1, Statistic sample2]"
    by (simp add: samplesFor_def scenario_def sample1_def sample2_def)
  have ne: "samplesFor ''1.1.1.1'' scenario \<noteq> []" unfolding f by simp
  have B: "0 < Hour" by (simp add: Hour_def)
  have bW: "Hour * int (sum_list (map st_PacketsRecv (samplesFor ''1.1.1.1'' scenario))) < 2 ^ 63"
    unfolding f by (simp add: sample1_def sample2_def Hour_def)
  have bS: "sum_list (map st_PacketsSent (samplesFor ''1.1.1.1'' scenario)) < 2 ^ 63"
    unfolding f by (simp add: sample1_def sample2_def)
  have v: "running_mean 0 0 (weighted [Statistic sample1, Statistic sample2]) = 18 * Millisecond"
    by (simp add: weighted_def sample1_def sample2_def merge_rule_def Millisecond_def
        signed_divide_int_def)
  from Add_avgRtt_weighted_mean [OF h ne B bW bS, of 25] f v h B bW bS show ?thesis
    by (simp add: sample1_def sample2_def scenario_def)
qed

section \<open>The running average and the exact weighted mean\<close>

lemma merge_rule_step:
  assumes "0 \<le> v" "0 < w" "0 \<le> m" "m * int W \<le> S" "S \<le> m * int W + int c * int W"
  shows "0 \<le> merge_rule m W v w"
    and "merge_rule m W v w * int (W + w) \<le> S + v * int w"
    and "S + v * int w \<le> merge_rule m W v w * int (W + w) + int (Suc c) * int (W + w)"
proof -
  let ?m' = "merge_rule m W v w"
  let ?D = "int (W + w)"
  let ?N = "m * int W + v * int w"
  have D: "0 < ?D" using assms(2) by simp
  have N: "0 \<le> ?N" using assms(1,3) by simp
  have cW: "int c * int W \<le> int c * ?D"
    by (rule mult_left_mono) simp_all
  show "0 \<le> ?m'"
  proof (cases "W = 0")
    case True
    then show ?thesis using assms(1) by (simp add: merge_rule_def)
  next
    case False
    then have "?m' = ?N div ?D"
      using sdiv_nonneg [OF N D] by (simp add: merge_rule_def)
    then show ?thesis using N D by (simp add: pos_imp_zdiv_nonneg_iff)
  qed
  show "?m' * ?D \<le> S + v * int w"
  proof (cases "W = 0")
    case True
    then show ?thesis using assms(4) by (simp add: merge_rule_def)
  next
    case False
    then have m': "?m' = ?N div ?D"
      using sdiv_nonneg [OF N D] by (simp add: merge_rule_def)
    have "?N = ?N div ?D * ?D + ?N mod ?D" by (rule div_mult_mod_eq [symmetric])
    moreover have "0 \<le> ?N mod ?D" using D by (rule pos_mod_sign)
    ultimately have "?N div ?D * ?D \<le> ?N" by linarith
    with assms(4) show ?thesis unfolding m' by linarith
  qed
  show "S + v * int w \<le> ?m' * ?D + int (Suc c) * ?D"
  proof (cases "W = 0")
    case True
    then have "S = 0" using assms(4,5) by simp
    with True show ?thesis by (simp add: merge_rule_def)
  next
    case False
    then have m': "?m' = ?N div ?D"
      using sdiv_nonneg [OF N D] by (simp add: merge_rule_def)
    have "?N = ?N div ?D * ?D + ?N mod ?D" by (rule div_mult_mod_eq [symmetric])
    moreover have "?N mod ?D < ?D" using D by (rule pos_mod_bound)
    ultimately have "?N < ?N div ?D * ?D + ?D" by linarith
    moreover have "int (Suc c) * ?D = int c * ?D + ?D"
      by (simp add: algebra_simps)
    ultimately show ?thesis unfolding m' using assms(5) cW by linarith
  qed
qed

lemma running_mean_bounds:
  assumes "\<forall>x\<in>set xs. 0 \<le> fst x \<and> 0 < snd x"
    and "0 \<le> m" and "m * int W \<le> S" and "S \<le> m * int W + int c * int W"
  shows "0 \<le> running_mean m W xs \<and>
         running_mean m W xs * int (W + total_weight xs) \<le> S + weighted_sum xs \<and>
         S + weighted_sum xs
           \<le> running_mean m W xs * int (W + total_weight xs)
             + int (c + length xs) * int (W + total_weight xs)"
  using assms
proof (induction xs arbitrary: m W S c)
  case Nil
  then show ?case by (simp add: total_weight_def weighted_sum_def)
next
  case (Cons x xs)
  obtain v w where x: "x = (v, w)" by (cases x)
  from Cons.prems(1) have vw: "0 \<le> v" "0 < w" and rest: "\<forall>x\<in>set xs. 0 \<le> fst x \<and> 0 < snd x"
    by (simp_all add: x)
  note st = merge_rule_step [OF vw Cons.prems(2,3,4)]
  from Cons.IH [OF rest st]
  show ?case
    by (simp add: x total_weight_def weighted_sum_def add.assoc)
qed

text \<open>
  The mean the incremental rule computes and the exact weighted mean: for \<open>n\<close> samples
  with averages that are not negative and weights above zero, the computed mean times
  the total weight is at most the weighted sum and falls short of it by at most \<open>n\<close> times
  the total weight. So the computed mean is never above the exact one and less than \<open>n\<close>
  nanoseconds below it: each truncating division loses less than one nanosecond.
\<close>

lemma running_mean_tolerance:
  assumes "\<forall>x\<in>set xs. 0 \<le> fst x \<and> 0 < snd x"
  shows "running_mean 0 0 xs * int (total_weight xs) \<le> weighted_sum xs \<and>
         weighted_sum xs
           \<le> running_mean 0 0 xs * int (total_weight xs)
             + int (length xs) * int (total_weight xs)"
  using running_mean_bounds [OF assms, of 0 0 0 0] by simp

text \<open>
  For the record of a destination: its \<open>AvgRtt\<close> is at most the exact weighted mean of the
  averages added for it and less than one nanosecond per added result below it.
\<close>

corollary Add_avgRtt_within_tolerance:
  assumes "\<forall>e\<in>set evs. DecIp (snd e) = k \<longrightarrow>
             0 < st_PacketsRecv (Statistic (snd e)) \<and>
             0 \<le> st_AvgRtt (Statistic (snd e)) \<and> st_AvgRtt (Statistic (snd e)) \<le> B"
    and "samplesFor k evs \<noteq> []"
    and "0 < B"
    and "B * int (sum_list (map st_PacketsRecv (samplesFor k evs))) < 2 ^ 63"
    and "sum_list (map st_PacketsSent (samplesFor k evs)) < 2 ^ 63"
  shows "\<exists>r. summaryData (Adds (NewPingStatsStore n) evs) k = Some r \<and>
           AvgRtt r * TotalRecv r \<le> weighted_sum (weighted (samplesFor k evs)) \<and>
           weighted_sum (weighted (samplesFor k evs))
             \<le> AvgRtt r * TotalRecv r + int (length (samplesFor k evs)) * TotalRecv r"
proof -
  have none: "summaryData (NewPingStatsStore n) k = None"
    by (simp add: NewPingStatsStore_def)
  from Adds_mean_created [OF assms(1) none assms(2,3,4,5)] obtain r where r:
    "summaryData (Adds (NewPingStatsStore n) evs) k = Some r"
    "TotalRecv r = int (sum_list (map st_PacketsRecv (samplesFor k evs)))"
    "AvgRtt r = running_mean 0 0 (weighted (samplesFor k evs))"
    by blast
  have w: "\<forall>x\<in>set (weighted (samplesFor k evs)). 0 \<le> fst x \<and> 0 < snd x"
    using assms(1) by (auto simp: weighted_def samplesFor_def)
  have t: "int (total_weight (weighted (samplesFor k evs))) = TotalRecv r"
    by (simp add: r(2) total_weight_def weighted_def comp_def)
  have l: "length (weighted (samplesFor k evs)) = length (samplesFor k evs)"
    by (simp add: weighted_def)
  from running_mean_tolerance [OF w]
  have "AvgRtt r * TotalRecv r \<le> weighted_sum (weighted (samplesFor k evs)) \<and>
        weighted_sum (weighted (samplesFor k evs))
          \<le> AvgRtt r * TotalRecv r + int (length (samplesFor k evs)) * TotalRecv r"
    unfolding t l r(3) [symmetric] .
  with r(1) show ?thesis by blast
qed

section \<open>The contract of the sorting routine\<close>

lemma in_order_trans:
  assumes "transitive_ordering lt" "in_order lt x y" "in_order lt y z"
  shows "in_order lt x z"
  using assms unfolding transitive_ordering_def in_order_def by blast

lemma in_order_total: "in_order lt x y \<or> in_order lt y x"
  unfolding in_order_def by blast

lemma set_insertLeft: "set (insertLeft lt x ys) = insert x (set ys)"
  by (induction ys) auto

lemma mset_insertLeft: "mset (insertLeft lt x ys) = add_mset x (mset ys)"
  by (induction ys) auto

lemma sorted_insertLeft:
  assumes "transitive_ordering lt"
  shows "sorted_wrt (\<lambda>a b. in_order lt b a) ys \<Longrightarrow>
         sorted_wrt (\<lambda>a b. in_order lt b a) (insertLeft lt x ys)"
proof (induction ys)
  case Nil
  then show ?case by simp
next
  case (Cons y ys)
  show ?case
  proof (cases "lt x y")
    case True
    have "in_order lt x y" using True by (simp add: in_order_def)
    with Cons True show ?thesis by (auto simp: set_insertLeft)
  next
    case False
    then have yx: "in_order lt y x" by (simp add: in_order_def)
    have "in_order lt z x" if "z \<in> set ys" for z
      using Cons.prems that yx in_order_trans [OF assms, of z y x] by auto
    with Cons.prems False yx show ?thesis by auto
  qed
qed

lemma foldl_insertLeft:
  assumes "transitive_ordering lt"
  shows "sorted_wrt (\<lambda>a b. in_order lt b a) acc \<Longrightarrow>
     sorted_wrt (\<lambda>a b. in_order lt b a) (foldl (\<lambda>sorted_part x. insertLeft lt x sorted_part) acc xs)
     \<and> mset (foldl (\<lambda>sorted_part x. insertLeft lt x sorted_part) acc xs) = mset acc + mset xs"
  by (induction xs arbitrary: acc) (auto simp: sorted_insertLeft [OF assms] mset_insertLeft)

lemma sorted_wrt_rev': "sorted_wrt (\<lambda>a b. P b a) xs \<Longrightarrow> sorted_wrt P (rev xs)"
  by (simp add: sorted_wrt_rev)

lemma insertionSort_contract: "sort_contract insertionSortLessFunc"
  unfolding sort_contract_def insertionSortLessFunc_def
proof (intro allI impI)
  fix lt :: "'a \<Rightarrow> 'a \<Rightarrow> bool" and xs
  assume t: "transitive_ordering lt"
  from foldl_insertLeft [OF t, of "[]" xs]
  show "mset (rev (foldl (\<lambda>sorted_part x. insertLeft lt x sorted_part) [] xs)) = mset xs \<and>
        sorted_wrt (in_order lt) (rev (foldl (\<lambda>sorted_part x. insertLeft lt x sorted_part) [] xs))"
    by (simp add: sorted_wrt_rev)
qed

lemma transitive_ordering_key:
  fixes key :: "'a \<Rightarrow> 'b::linorder"
  shows "transitive_ordering (\<lambda>a b. direction d (key a < key b))"
  unfolding transitive_ordering_def direction_def by (cases d) auto

lemma in_order_key:
  fixes key :: "'a \<Rightarrow> 'b::linorder"
  shows "in_order (\<lambda>a b. direction d (key a < key b)) x y
         \<longleftrightarrow> (if d then key y \<le> key x else key x \<le> key y)"
  unfolding in_order_def direction_def by (cases d) auto

lemma lessFlat_key: "lessFlat field a b \<longleftrightarrow> keyFlat field a < keyFlat field b"
  by (simp add: lessFlat_def keyFlat_def)

lemma lessLossOnly_key: "lessLossOnly field a b \<longleftrightarrow> keyLossOnly field a < keyLossOnly field b"
  by (simp add: lessLossOnly_def keyLossOnly_def)

lemma lessGrouped_key: "lessGrouped field a b \<longleftrightarrow> keyLossOnly field a < keyLossOnly field b"
  by (simp add: lessGrouped_def keyLossOnly_def)

lemma contract_key:
  fixes key :: "'a \<Rightarrow> real"
  assumes "sort_contract srt"
  shows "mset (srt (\<lambda>a b. direction d (key a < key b)) xs) = mset xs"
    and "sorted_wrt (\<lambda>x y. if d then key y \<le> key x else key x \<le> key y)
           (srt (\<lambda>a b. direction d (key a < key b)) xs)"
proof -
  from assms transitive_ordering_key [of d key]
  have *: "mset (srt (\<lambda>a b. direction d (key a < key b)) xs) = mset xs \<and>
        sorted_wrt (in_order (\<lambda>a b. direction d (key a < key b))) (srt (\<lambda>a b. direction d (key a < key b)) xs)"
    unfolding sort_contract_def by blast
  then show "mset (srt (\<lambda>a b. direction d (key a < key b)) xs) = mset xs" by simp
  from * show "sorted_wrt (\<lambda>x y. if d then key y \<le> key x else key x \<le> key y)
           (srt (\<lambda>a b. direction d (key a < key b)) xs)"
    by (simp add: in_order_key [abs_def])
qed

lemma copySummary_id: "copySummary v = v"
  by (simp add: copySummary_def)

section \<open>Sorted lists with the same elements\<close>

lemma sorted_same_mset_keys:
  fixes k :: "'a \<Rightarrow> real"
  assumes "mset xs = mset ys" "sorted (map k xs)" "sorted (map k ys)"
  shows "map k xs = map k ys"
proof -
  have "mset (map k xs) = mset (map k ys)" using assms(1) by simp
  from properties_for_sort [OF this assms(2)] have "sort (map k ys) = map k xs" .
  moreover have "sort (map k ys) = map k ys" using assms(3) by (rule sort_key_id_if_sorted[where f="\<lambda>x. x", simplified])
  ultimately show ?thesis by simp
qed

lemma sorted_keys_asc:
  fixes k :: "'a \<Rightarrow> real"
  shows "sorted_wrt (\<lambda>x y. k x \<le> k y) xs \<Longrightarrow> sorted (map k xs)"
  by (simp add: sorted_map)

lemma sorted_keys_desc:
  fixes k :: "'a \<Rightarrow> real"
  shows "sorted_wrt (\<lambda>x y. k y \<le> k x) xs \<Longrightarrow> sorted (rev (map k xs))"
  by (simp add: sorted_wrt_rev sorted_wrt_map)

lemma same_keys_same_list:
  fixes k :: "'a \<Rightarrow> real"
  assumes "mset xs = mset ys" "map k xs = map k ys" "inj_on k (set ys)"
  shows "xs = ys"
proof -
  have "set xs = set ys" using assms(1) by (rule mset_eq_setD)
  with assms(3) have "inj_on k (set xs \<union> set ys)" by simp
  with assms(2) show ?thesis by (simp add: inj_on_map_eq_map)
qed

lemma mset_rangeCopies:
  assumes "is_iteration ks1 m" "is_iteration ks2 m"
  shows "mset (List.map_filter m ks1) = mset (List.map_filter m ks2)"
proof -
  have "mset ks1 = mset ks2"
    using assms by (simp add: is_iteration_def set_eq_iff_mset_eq_distinct [symmetric])
  then show ?thesis
    by (simp add: List.map_filter_def)
qed

lemma set_rangeCopies: "set (rangeCopies ks s) \<subseteq> ran (summaryData s)"
  by (auto simp: rangeCopies_def copySummary_id List.map_filter_def ran_def)

lemma rec_loss: "PacketLoss recA = 50" "PacketLoss recB = 10" "PacketLoss recC = 0"
  by (simp_all add: recA_def recB_def recC_def)

lemma rec_distinct: "recA \<noteq> recB" "recB \<noteq> recA" "recA \<noteq> recC" "recC \<noteq> recA" "recB \<noteq> recC" "recC \<noteq> recB"
  by (simp_all add: recA_def recB_def recC_def)

lemma ran_store_abc: "ran (summaryData store_abc) = {recA, recB, recC}"
proof -
  have "ran [''10.0.0.1'' \<mapsto> recA, ''10.0.0.2'' \<mapsto> recB, ''10.0.0.3'' \<mapsto> recC]
        = insert recC (ran [''10.0.0.1'' \<mapsto> recA, ''10.0.0.2'' \<mapsto> recB])"
    by (rule ran_map_upd) simp
  also have "ran [''10.0.0.1'' \<mapsto> recA, ''10.0.0.2'' \<mapsto> recB]
        = insert recB (ran [''10.0.0.1'' \<mapsto> recA])"
    by (rule ran_map_upd) simp
  finally show ?thesis by (auto simp: store_abc_def)
qed

lemma flat_desc_abc:
  "GetSummarySorted insertionSortLessFunc [''10.0.0.1'', ''10.0.0.2'', ''10.0.0.3''] store_abc ''loss'' True
     = [recA, recB, recC]"
  by (simp add: GetSummarySorted_def rangeCopies_def List.map_filter_simps store_abc_def
      copySummary_id insertionSortLessFunc_def direction_def lessFlat_def rec_loss)

lemma flat_asc_abc:
  "GetSummarySorted insertionSortLessFunc [''10.0.0.3'', ''10.0.0.1'', ''10.0.0.2''] store_abc ''loss'' False
     = [recC, recB, recA]"
  by (simp add: GetSummarySorted_def rangeCopies_def List.map_filter_simps store_abc_def
      copySummary_id insertionSortLessFunc_def direction_def lessFlat_def rec_loss)

section \<open>The flat summary in both directions\<close>

text \<open>
  C6. Take two calls of \<open>GetSummarySorted\<close> on the same store and field, one descending
  and one ascending, each with its own traversal order of the map. Both return the same
  records as multisets, the ascending one in non-decreasing order of the key, and the
  keys of the descending result read backwards are the keys of the ascending one. When no
  two records of the store tie on the key, the descending list is the reverse of the
  ascending list.
\<close>

theorem GetSummarySorted_descending_reverses:
  assumes "sort_contract srt"
    and "is_iteration ks1 (summaryData s)" and "is_iteration ks2 (summaryData s)"
  shows "mset (GetSummarySorted srt ks1 s field True)
           = mset (GetSummarySorted srt ks2 s field False) \<and>
         sorted (map (keyFlat field) (GetSummarySorted srt ks2 s field False)) \<and>
         map (keyFlat field) (GetSummarySorted srt ks1 s field True)
           = rev (map (keyFlat field) (GetSummarySorted srt ks2 s field False)) \<and>
         (inj_on (keyFlat field) (ran (summaryData s)) \<longrightarrow>
            GetSummarySorted srt ks1 s field True
              = rev (GetSummarySorted srt ks2 s field False))"
proof -
  let ?k = "keyFlat field"
  let ?D = "GetSummarySorted srt ks1 s field True"
  let ?A = "GetSummarySorted srt ks2 s field False"
  have D: "?D = srt (\<lambda>a b. direction True (?k a < ?k b)) (rangeCopies ks1 s)"
    and A: "?A = srt (\<lambda>a b. direction False (?k a < ?k b)) (rangeCopies ks2 s)"
    by (simp_all add: GetSummarySorted_def lessFlat_key)
  have mD: "mset ?D = mset (rangeCopies ks1 s)" and mA: "mset ?A = mset (rangeCopies ks2 s)"
    unfolding D A by (simp_all add: contract_key(1) [OF assms(1)])
  have "mset (rangeCopies ks1 s) = mset (rangeCopies ks2 s)"
    unfolding rangeCopies_def using mset_rangeCopies [OF assms(2,3)] by simp
  with mD mA have m: "mset ?D = mset ?A" by simp
  have "sorted_wrt (\<lambda>x y. ?k y \<le> ?k x) ?D"
    using contract_key(2) [OF assms(1), of True ?k "rangeCopies ks1 s"]
    unfolding D by simp
  then have sD: "sorted (rev (map ?k ?D))"
    by (rule sorted_keys_desc)
  have "sorted_wrt (\<lambda>x y. ?k x \<le> ?k y) ?A"
    using contract_key(2) [OF assms(1), of False ?k "rangeCopies ks2 s"]
    unfolding A by simp
  then have sA: "sorted (map ?k ?A)"
    by (rule sorted_keys_asc)
  have "mset (rev ?D) = mset ?A" using m by simp
  from sorted_same_mset_keys [OF this, of ?k] sD sA have "map ?k (rev ?D) = map ?k ?A"
    by (simp add: rev_map)
  then have e: "rev (map ?k ?D) = map ?k ?A"
    by (simp only: rev_map)
  have "map ?k ?D = rev (rev (map ?k ?D))"
    by (simp only: rev_rev_ident)
  also have "\<dots> = rev (map ?k ?A)"
    by (simp only: e)
  finally have keys: "map ?k ?D = rev (map ?k ?A)" .
  have exact: "?D = rev ?A" if inj: "inj_on ?k (ran (summaryData s))"
  proof -
    have "set ?A = set (rangeCopies ks2 s)"
      using mA by (rule mset_eq_setD)
    then have "set ?A \<subseteq> ran (summaryData s)"
      using set_rangeCopies [of ks2 s] by simp
    then have "inj_on ?k (set (rev ?A))" using inj by (auto intro: inj_on_subset)
    moreover have "mset ?D = mset (rev ?A)" using m by simp
    moreover have "map ?k ?D = map ?k (rev ?A)" using keys by (simp only: rev_map)
    ultimately show ?thesis by (rule same_keys_same_list [rotated 2])
  qed
  show ?thesis
  proof (intro conjI impI)
    show "mset ?D = mset ?A" by (rule m)
    show "sorted (map ?k ?A)" by (rule sA)
    show "map ?k ?D = rev (map ?k ?A)" by (rule keys)
    assume "inj_on ?k (ran (summaryData s))"
    then show "?D = rev ?A" by (rule exact)
  qed
qed

theorem GetSummarySorted_descending_reverses_witness:
  "sort_contract (insertionSortLessFunc :: SummaryStatistic sorter) \<and>
   is_iteration [''10.0.0.1'', ''10.0.0.2'', ''10.0.0.3''] (summaryData store_abc) \<and>
   is_iteration [''10.0.0.3'', ''10.0.0.1'', ''10.0.0.2''] (summaryData store_abc) \<and>
   inj_on (keyFlat ''loss'') (ran (summaryData store_abc)) \<and>
   GetSummarySorted insertionSortLessFunc [''10.0.0.1'', ''10.0.0.2'', ''10.0.0.3'']
       store_abc ''loss'' True = [recA, recB, recC] \<and>
   GetSummarySorted insertionSortLessFunc [''10.0.0.3'', ''10.0.0.1'', ''10.0.0.2'']
       store_abc ''loss'' False = [recC, recB, recA] \<and>
   GetSummarySorted insertionSortLessFunc [''10.0.0.1'', ''10.0.0.2'', ''10.0.0.3'']
       store_abc ''loss'' True
     = rev (GetSummarySorted insertionSortLessFunc [''10.0.0.3'', ''10.0.0.1'', ''10.0.0.2'']
              store_abc ''loss'' False)"
proof -
  have i1: "is_iteration [''10.0.0.1'', ''10.0.0.2'', ''10.0.0.3''] (summaryData store_abc)"
    by (auto simp: is_iteration_def store_abc_def split: if_splits)
  have i2: "is_iteration [''10.0.0.3'', ''10.0.0.1'', ''10.0.0.2''] (summaryData store_abc)"
    by (auto simp: is_iteration_def store_abc_def split: if_splits)
  have inj: "inj_on (keyFlat ''loss'') (ran (summaryData store_abc))"
    by (auto simp: inj_on_def ran_store_abc keyFlat_def rec_loss)
  from GetSummarySorted_descending_reverses [OF insertionSort_contract i1 i2, of "''loss''"] inj
  have "GetSummarySorted insertionSortLessFunc [''10.0.0.1'', ''10.0.0.2'', ''10.0.0.3'']
          store_abc ''loss'' True
        = rev (GetSummarySorted insertionSortLessFunc [''10.0.0.3'', ''10.0.0.1'', ''10.0.0.2'']
                 store_abc ''loss'' False)"
    by blast
  with insertionSort_contract i1 i2 inj flat_desc_abc flat_asc_abc show ?thesis
    by (intro conjI)
qed

section \<open>The loss-only view\<close>

lemma lossOnly_abc:
  "GetLossOnlyGroupedByIspSorted insertionSortLessFunc [recC, recA, recB] ''loss'' False = [recB, recA]"
  by (simp add: GetLossOnlyGroupedByIspSorted_def insertionSortLessFunc_def direction_def
      lessLossOnly_def rec_loss)

lemma rec_isp: "Isp recA = ''ispA''" "Isp recB = ''ispB''" "Isp recC = ''ispA''"
  by (simp_all add: recA_def recB_def recC_def)

lemma grouped_abc:
  "GetSummarySortedGroupedByIsp insertionSortLessFunc
     [''10.0.0.1'', ''10.0.0.2'', ''10.0.0.3''] [''ispA'', ''ispB''] store_abc ''loss'' False
   = [recC, recA, recB]"
  by (simp add: GetSummarySortedGroupedByIsp_def rangeCopies_def List.map_filter_simps
      store_abc_def copySummary_id insertionSortLessFunc_def direction_def lessGrouped_def
      rec_loss rec_isp)

lemma HandleDPing_abc:
  "snd (HandleDPing insertionSortLessFunc
          [''10.0.0.1'', ''10.0.0.2'', ''10.0.0.3''] [''ispA'', ''ispB''] store_abc
          ''loss'' False [])
   = ([recC, recA, recB], [recB, recA])"
  by (simp add: HandleDPing_def Let_def grouped_abc lossOnly_abc)

text \<open>
  What of the claim does hold of the view: it returns the records of its input whose
  \<open>PacketLoss\<close> is above zero, each as often as the input has it.
\<close>

lemma GetLossOnly_same_records:
  assumes "sort_contract srt"
  shows "mset (GetLossOnlyGroupedByIspSorted srt summ field d)
         = mset (filter (\<lambda>v. 0 < PacketLoss v) summ)"
proof -
  have "GetLossOnlyGroupedByIspSorted srt summ field d
        = srt (\<lambda>a b. direction d (keyLossOnly field a < keyLossOnly field b))
            (filter (\<lambda>v. 0 < PacketLoss v) summ)"
    by (simp add: GetLossOnlyGroupedByIspSorted_def lessLossOnly_key)
  then show ?thesis by (simp only: contract_key(1) [OF assms])
qed

text \<open>
  C4. The view does not keep the order of its input. For the store of the three records,
  \<open>HandleDPing\<close> computes the summary grouped by ISP, sorted by loss within each group:
  \<open>recC\<close> and \<open>recA\<close> of the first ISP, then \<open>recB\<close> of the second. The records with lost
  packets stand in it as \<open>recA\<close>, \<open>recB\<close>. The view, which is named and documented as
  grouped by ISP, sorts the filtered list once more as a whole and returns \<open>recB\<close>, \<open>recA\<close>:
  the record of the second ISP before the record of the first.
\<close>

theorem GetLossOnly_mixes_isp_groups:
  "snd (HandleDPing insertionSortLessFunc
          [''10.0.0.1'', ''10.0.0.2'', ''10.0.0.3''] [''ispA'', ''ispB''] store_abc
          ''loss'' False [])
     = ([recC, recA, recB], [recB, recA]) \<and>
   filter (\<lambda>v. 0 < PacketLoss v) [recC, recA, recB] = [recA, recB] \<and>
   GetLossOnlyGroupedByIspSorted insertionSortLessFunc [recC, recA, recB] ''loss'' False
     = [recB, recA] \<and>
   [recB, recA] \<noteq> [recA, recB] \<and>
   map Isp [recA, recB] = [''ispA'', ''ispB''] \<and>
   map Isp [recB, recA] = [''ispB'', ''ispA'']"
  by (simp add: HandleDPing_abc lossOnly_abc rec_loss rec_distinct rec_isp)

section \<open>What the views report of a record\<close>

lemma set_srt:
  fixes key :: "'a \<Rightarrow> real"
  assumes "sort_contract srt"
  shows "set (srt (\<lambda>a b. direction d (key a < key b)) xs) = set xs"
  using contract_key(1) [OF assms, of d key xs] by (rule mset_eq_setD)

lemma set_GetSummarySorted:
  assumes "sort_contract srt"
  shows "set (GetSummarySorted srt ks s field d) \<subseteq> ran (summaryData s)"
  using set_rangeCopies [of ks s]
  by (simp add: GetSummarySorted_def lessFlat_key set_srt [OF assms])

lemma set_GetSummarySortedGroupedByIsp:
  assumes "sort_contract srt"
  shows "set (GetSummarySortedGroupedByIsp srt ks isps s field d) \<subseteq> ran (summaryData s)"
  using set_rangeCopies [of ks s]
  by (auto simp: GetSummarySortedGroupedByIsp_def lessGrouped_key set_srt [OF assms])

lemma set_GetLossOnly:
  assumes "sort_contract srt"
  shows "set (GetLossOnlyGroupedByIspSorted srt summ field d) \<subseteq> set summ"
  by (auto simp: GetLossOnlyGroupedByIspSorted_def lessLossOnly_key set_srt [OF assms])

lemma firstFor_DecIp: "firstFor k evs = Some st \<Longrightarrow> DecIp st = k"
  by (induction evs) (auto simp: firstFor_def split: if_splits)

text \<open>
  C10. Start from a fresh store and add results. Every record of the store, and so every
  row of the flat summary, of the summary grouped by ISP and of the loss-only view made
  from it, has the \<open>PacketLoss\<close> and the \<open>PacketsRecvDuplicates\<close> of the first result of the
  run for its destination: \<open>Add\<close> writes the two fields when it creates the record and
  never again, whatever later results for the destination report.
\<close>

theorem views_report_first_sample:
  assumes "sort_contract srt"
    and "r \<in> ran (summaryData (Adds (NewPingStatsStore n) evs))
           \<union> set (GetSummarySorted srt ks (Adds (NewPingStatsStore n) evs) field d)
           \<union> set (GetSummarySortedGroupedByIsp srt ks isps
                    (Adds (NewPingStatsStore n) evs) field d)
           \<union> set (GetLossOnlyGroupedByIspSorted srt
                    (GetSummarySortedGroupedByIsp srt ks isps
                       (Adds (NewPingStatsStore n) evs) field d) field d)"
  shows "\<exists>st. firstFor (DestIP r) evs = Some st \<and>
              PacketLoss r = st_PacketLoss (Statistic st) \<and>
              PacketsRecvDuplicates r = st_PacketsRecvDuplicates (Statistic st)"
proof -
  let ?s = "Adds (NewPingStatsStore n) evs"
  from assms(2) set_GetSummarySorted [OF assms(1), of ks ?s field d]
    set_GetSummarySortedGroupedByIsp [OF assms(1), of ks isps ?s field d]
    set_GetLossOnly [OF assms(1),
      of "GetSummarySortedGroupedByIsp srt ks isps ?s field d" field d]
  have "r \<in> ran (summaryData ?s)" by blast
  then obtain k where k: "summaryData ?s k = Some r" by (auto simp: ran_def)
  have "summaryData (NewPingStatsStore n) k = None" by (simp add: NewPingStatsStore_def)
  from Adds_created [OF this k] obtain st where
    st: "firstFor k evs = Some st" "same_identity r (newSummary st)" by blast
  have "DecIp st = k"
    using st(1) by (rule firstFor_DecIp)
  with st show ?thesis by (auto simp: same_identity_def newSummary_def)
qed

lemma flat_scenario:
  "GetSummarySorted insertionSortLessFunc [''1.1.1.1''] (Adds (NewPingStatsStore 25) scenario)
     ''loss'' False = [scenario_record]"
  by (simp add: GetSummarySorted_def rangeCopies_def List.map_filter_simps
      summaryData_scenario copySummary_id insertionSortLessFunc_def)

theorem views_report_first_sample_witness:
  "sort_contract (insertionSortLessFunc :: SummaryStatistic sorter) \<and>
   scenario_record \<in> set (GetSummarySorted insertionSortLessFunc [''1.1.1.1'']
                            (Adds (NewPingStatsStore 25) scenario) ''loss'' False) \<and>
   firstFor (DestIP scenario_record) scenario = Some sample1 \<and>
   PacketLoss scenario_record = st_PacketLoss (Statistic sample1) \<and>
   PacketsRecvDuplicates scenario_record = st_PacketsRecvDuplicates (Statistic sample1) \<and>
   st_PacketLoss (Statistic sample2) \<noteq> st_PacketLoss (Statistic sample1) \<and>
   st_PacketsRecvDuplicates (Statistic sample2)
     \<noteq> st_PacketsRecvDuplicates (Statistic sample1)"
proof -
  have m: "scenario_record \<in> set (GetSummarySorted insertionSortLessFunc [''1.1.1.1'']
                            (Adds (NewPingStatsStore 25) scenario) ''loss'' False)"
    by (simp add: flat_scenario)
  then have u: "scenario_record \<in> ran (summaryData (Adds (NewPingStatsStore 25) scenario))
           \<union> set (GetSummarySorted insertionSortLessFunc [''1.1.1.1'']
                    (Adds (NewPingStatsStore 25) scenario) ''loss'' False)
           \<union> set (GetSummarySortedGroupedByIsp insertionSortLessFunc [''1.1.1.1''] [''ispA'']
                    (Adds (NewPingStatsStore 25) scenario) ''loss'' False)
           \<union> set (GetLossOnlyGroupedByIspSorted insertionSortLessFunc
                    (GetSummarySortedGroupedByIsp insertionSortLessFunc [''1.1.1.1''] [''ispA'']
                       (Adds (NewPingStatsStore 25) scenario) ''loss'' False) ''loss'' False)"
    by blast
  have f: "firstFor (DestIP scenario_record) scenario = Some sample1"
    by (simp add: firstFor_def scenario_def scenario_record_def sample1_def)
  from views_report_first_sample [OF insertionSort_contract u] f
  have c: "PacketLoss scenario_record = st_PacketLoss (Statistic sample1) \<and>
           PacketsRecvDuplicates scenario_record = st_PacketsRecvDuplicates (Statistic sample1)"
    by simp
  have d: "st_PacketLoss (Statistic sample2) \<noteq> st_PacketLoss (Statistic sample1) \<and>
           st_PacketsRecvDuplicates (Statistic sample2)
             \<noteq> st_PacketsRecvDuplicates (Statistic sample1)"
    by (simp add: sample1_def sample2_def)
  from insertionSort_contract m f c d show ?thesis by blast
qed

section \<open>Fallback of the selector\<close>






section \<open>Bounded dispatch\<close>

lemma count_at_update:
  assumes "i < length ts"
  shows "count_at ps (ts[i := (x, p)]) + (if snd (ts ! i) \<in> ps then 1 else 0)
         = count_at ps ts + (if p \<in> ps then 1 else 0)"
  using assms unfolding count_at_def
proof (induction ts arbitrary: i)
  case Nil
  then show ?case by simp
next
  case (Cons t ts)
  show ?case
  proof (cases i)
    case 0
    then show ?thesis by simp
  next
    case (Suc j)
    with Cons.prems have "j < length ts" by simp
    from Cons.IH [OF this] Suc show ?thesis by simp
  qed
qed

lemma count_at_append: "count_at ps (ts @ us) = count_at ps ts + count_at ps us"
  by (simp add: count_at_def)

lemma count_at_move:
  assumes "at_place d i p" and "p \<in> ps \<longleftrightarrow> in_before" and "q \<in> ps \<longleftrightarrow> in_after"
  shows "count_at ps (move d i q) + (if in_before then 1 else 0)
         = count_at ps (tasks d) + (if in_after then 1 else 0)"
  using assms count_at_update [of i "tasks d" ps "fst (tasks d ! i)" q]
  by (simp add: at_place_def move_def)

lemma map_fst_move: "map fst (move d i q) = map fst (tasks d)"
proof (cases "i < length (tasks d)")
  case True
  then have "(map fst (tasks d))[i := fst (tasks d ! i)] = map fst (tasks d)"
    by (simp add: list_update_same_conv)
  then show ?thesis by (simp add: move_def map_update)
next
  case False
  then have "(tasks d)[i := (fst (tasks d ! i), q)] = tasks d"
    by (simp add: list_update_beyond)
  then show ?thesis by (simp add: move_def)
qed

lemma count_at_zero_iff: "count_at ps ts = 0 \<longleftrightarrow> (\<forall>t\<in>set ts. snd t \<notin> ps)"
  by (simp add: count_at_def filter_empty_conv)

lemma count_at_mono: "ps \<subseteq> qs \<Longrightarrow> count_at ps ts \<le> count_at qs ts"
  unfolding count_at_def by (induction ts) auto

lemma dispatch_inv_init: "dispatch_inv targets maxConcurrency (dispatch targets)"
  by (simp add: dispatch_inv_def dispatch_def count_at_def)


lemma dispatch_inv_step:
  assumes "dispatch_inv targets maxConcurrency d" and "step maxConcurrency d a = Some d'"
  shows "dispatch_inv targets maxConcurrency d'"
proof (cases a)
  case Spawn
  with assms show ?thesis
    by (auto simp: dispatch_inv_def count_at_append count_at_def split: list.splits)
next
  case (Acquire i)
  with assms(2) have g: "at_place d i Waiting" "sem d < maxConcurrency"
    and d': "d' = d\<lparr>sem := sem d + 1, tasks := move d i Probing\<rparr>"
    by (auto split: if_splits)
  from count_at_move [OF g(1), of "{Probing, Returned}" False Probing True]
  have 1: "count_at {Probing, Returned} (move d i Probing)
           = count_at {Probing, Returned} (tasks d) + 1" by simp
  from count_at_move [OF g(1), of "{Waiting, Probing, Returned, Released}" True Probing True]
  have 2: "count_at {Waiting, Probing, Returned, Released} (move d i Probing)
           = count_at {Waiting, Probing, Returned, Released} (tasks d)" by simp
  from assms(1) g(2) show ?thesis
    unfolding d' by (auto simp: dispatch_inv_def 1 2 map_fst_move)
next
  case (PingReturns i ok)
  with assms(2) have g: "at_place d i Probing"
    and d': "d' = d\<lparr>sent_results :=
                      (if ok then sent_results d @ [fst (tasks d ! i)] else sent_results d),
                    tasks := move d i Returned\<rparr>"
    by (auto split: if_splits)
  from count_at_move [OF g, of "{Probing, Returned}" True Returned True]
  have 1: "count_at {Probing, Returned} (move d i Returned)
           = count_at {Probing, Returned} (tasks d)" by simp
  from count_at_move [OF g, of "{Waiting, Probing, Returned, Released}" True Returned True]
  have 2: "count_at {Waiting, Probing, Returned, Released} (move d i Returned)
           = count_at {Waiting, Probing, Returned, Released} (tasks d)" by simp
  from assms(1) show ?thesis
    unfolding d' by (auto simp: dispatch_inv_def 1 2 map_fst_move)
next
  case (Release i)
  with assms(2) have g: "at_place d i Returned" "0 < sem d"
    and d': "d' = d\<lparr>sem := sem d - 1, tasks := move d i Released\<rparr>"
    by (auto split: if_splits)
  from count_at_move [OF g(1), of "{Probing, Returned}" True Released False]
  have 1: "count_at {Probing, Returned} (move d i Released) + 1
           = count_at {Probing, Returned} (tasks d)" by simp
  from count_at_move [OF g(1), of "{Waiting, Probing, Returned, Released}" True Released True]
  have 2: "count_at {Waiting, Probing, Returned, Released} (move d i Released)
           = count_at {Waiting, Probing, Returned, Released} (tasks d)" by simp
  from assms(1) g(2) 1 show ?thesis
    unfolding d' by (auto simp: dispatch_inv_def 2 map_fst_move)
next
  case (Done i)
  with assms(2) have g: "at_place d i Released" "0 < wg d"
    and d': "d' = d\<lparr>wg := wg d - 1, tasks := move d i Finished\<rparr>"
    by (auto split: if_splits)
  from count_at_move [OF g(1), of "{Probing, Returned}" False Finished False]
  have 1: "count_at {Probing, Returned} (move d i Finished)
           = count_at {Probing, Returned} (tasks d)" by simp
  from count_at_move [OF g(1), of "{Waiting, Probing, Returned, Released}" True Finished False]
  have 2: "count_at {Waiting, Probing, Returned, Released} (move d i Finished) + 1
           = count_at {Waiting, Probing, Returned, Released} (tasks d)" by simp
  from assms(1) g(2) 2 show ?thesis
    unfolding d' by (auto simp: dispatch_inv_def 1 map_fst_move)
next
  case WaitAndClose
  with assms show ?thesis
    by (auto simp: dispatch_inv_def split: if_splits)
qed

lemma dispatch_inv_run:
  "dispatch_inv targets maxConcurrency d \<Longrightarrow> run maxConcurrency d sched = Some d' \<Longrightarrow>
   dispatch_inv targets maxConcurrency d'"
proof (induction sched arbitrary: d)
  case Nil
  then show ?case by simp
next
  case (Cons a sched)
  from Cons.prems(2) obtain d1 where
    1: "step maxConcurrency d a = Some d1" and 2: "run maxConcurrency d1 sched = Some d'"
    by (auto split: option.splits)
  from Cons.IH [OF dispatch_inv_step [OF Cons.prems(1) 1] 2] show ?case .
qed

lemma place_exhaust:
  "p \<notin> {Waiting, Probing, Returned, Released} \<Longrightarrow> p = Finished"
  by (cases p) auto

lemma count_at_pos:
  assumes "at_place d i p" and "p \<in> ps"
  shows "0 < count_at ps (tasks d)"
proof -
  from assms have "tasks d ! i \<in> set (tasks d)" and "snd (tasks d ! i) \<in> ps"
    by (simp_all add: at_place_def)
  then have "filter (\<lambda>t. snd t \<in> ps) (tasks d) \<noteq> []"
    by (auto simp: filter_empty_conv)
  then show ?thesis by (simp add: count_at_def)
qed

text \<open>
  The two guards of the deferred function never refuse in a run: a goroutine that has
  returned from \<open>Ping\<close> finds its token in \<open>sem\<close>, and the counter of \<open>wg\<close> is above zero when
  it calls \<open>wg.Done()\<close>.
\<close>

lemma deferred_never_blocks:
  assumes "run maxConcurrency (dispatch targets) sched = Some d"
  shows "(at_place d i Returned \<longrightarrow> step maxConcurrency d (Release i) \<noteq> None) \<and>
         (at_place d i Released \<longrightarrow> step maxConcurrency d (Done i) \<noteq> None)"
proof -
  from dispatch_inv_run [OF dispatch_inv_init assms]
  have inv: "dispatch_inv targets maxConcurrency d" .
  have "0 < sem d" if "at_place d i Returned"
    using inv count_at_pos [OF that, of "{Probing, Returned}"]
    by (simp add: dispatch_inv_def)
  moreover have "0 < wg d" if "at_place d i Released"
    using inv count_at_pos [OF that, of "{Waiting, Probing, Returned, Released}"]
    by (simp add: dispatch_inv_def)
  ultimately show ?thesis by simp
qed

lemma remaining_update:
  assumes "i < length ts"
  shows "sum_list (map (\<lambda>t. remaining (snd t)) (ts[i := (x, p)])) + remaining (snd (ts ! i))
         = sum_list (map (\<lambda>t. remaining (snd t)) ts) + remaining p"
  using assms
proof (induction ts arbitrary: i)
  case Nil
  then show ?case by simp
next
  case (Cons t ts)
  show ?case
  proof (cases i)
    case 0
    then show ?thesis by simp
  next
    case (Suc j)
    with Cons.prems have "j < length ts" by simp
    from Cons.IH [OF this] Suc show ?thesis by simp
  qed
qed

lemma remaining_move:
  assumes "at_place d i p"
  shows "sum_list (map (\<lambda>t. remaining (snd t)) (move d i q)) + remaining p
         = sum_list (map (\<lambda>t. remaining (snd t)) (tasks d)) + remaining q"
  using assms remaining_update [of i "tasks d" "fst (tasks d ! i)" q]
  by (simp add: at_place_def move_def)

text \<open>Every step uses up one of the steps that are left.\<close>

lemma steps_left_step:
  assumes "step maxConcurrency d a = Some d'"
  shows "Suc (steps_left d') = steps_left d"
proof (cases a)
  case Spawn
  with assms show ?thesis
    by (auto simp: steps_left_def split: list.splits)
next
  case (Acquire i)
  with assms have g: "at_place d i Waiting"
    and d': "d' = d\<lparr>sem := sem d + 1, tasks := move d i Probing\<rparr>"
    by (auto split: if_splits)
  from remaining_move [OF g, of Probing] show ?thesis
    unfolding d' by (simp add: steps_left_def)
next
  case (PingReturns i ok)
  with assms have g: "at_place d i Probing"
    and d': "d' = d\<lparr>sent_results :=
                      (if ok then sent_results d @ [fst (tasks d ! i)] else sent_results d),
                    tasks := move d i Returned\<rparr>"
    by (auto split: if_splits)
  from remaining_move [OF g, of Returned] show ?thesis
    unfolding d' by (simp add: steps_left_def)
next
  case (Release i)
  with assms have g: "at_place d i Returned"
    and d': "d' = d\<lparr>sem := sem d - 1, tasks := move d i Released\<rparr>"
    by (auto split: if_splits)
  from remaining_move [OF g, of Released] show ?thesis
    unfolding d' by (simp add: steps_left_def)
next
  case (Done i)
  with assms have g: "at_place d i Released"
    and d': "d' = d\<lparr>wg := wg d - 1, tasks := move d i Finished\<rparr>"
    by (auto split: if_splits)
  from remaining_move [OF g, of Finished] show ?thesis
    unfolding d' by (simp add: steps_left_def)
next
  case WaitAndClose
  with assms show ?thesis
    by (auto simp: steps_left_def split: if_splits)
qed

lemma steps_left_run:
  "run maxConcurrency d sched = Some d' \<Longrightarrow> length sched + steps_left d' = steps_left d"
proof (induction sched arbitrary: d)
  case Nil
  then show ?case by simp
next
  case (Cons a sched)
  from Cons.prems obtain d1 where
    1: "step maxConcurrency d a = Some d1" and 2: "run maxConcurrency d1 sched = Some d'"
    by (auto split: option.splits)
  from Cons.IH [OF 2] steps_left_step [OF 1] show ?case by simp
qed

lemma at_place_exists:
  assumes "count_at {p} (tasks d) \<noteq> 0"
  shows "\<exists>i. at_place d i p"
proof -
  from assms obtain t where "t \<in> set (tasks d)" "snd t = p"
    by (auto simp: count_at_zero_iff)
  then show ?thesis
    by (auto simp: at_place_def in_set_conv_nth)
qed

lemma count_at_none:
  assumes "\<forall>p\<in>ps. count_at {p} ts = 0"
  shows "count_at ps ts = 0"
  using assms by (auto simp: count_at_zero_iff)

text \<open>
  While the loops have targets left, the next goroutine can be started. With a limit
  above zero, some step can be taken in every state in which the result channel is still
  open: the dispatcher never comes to a halt before it has closed the channel.
\<close>

lemma spawn_enabled: "pending d \<noteq> [] \<Longrightarrow> step maxConcurrency d Spawn \<noteq> None"
  by (cases "pending d") simp_all

lemma dispatch_progress:
  assumes inv: "dispatch_inv targets maxConcurrency d"
    and C: "0 < maxConcurrency" and o: "\<not> closed d"
  shows "\<exists>a d'. step maxConcurrency d a = Some d'"
proof -
  consider (c_spawn) "pending d \<noteq> []"
    | (c_done) "pending d = []" "count_at {Released} (tasks d) \<noteq> 0"
    | (c_release) "pending d = []" "count_at {Returned} (tasks d) \<noteq> 0"
    | (c_return) "pending d = []" "count_at {Probing} (tasks d) \<noteq> 0"
    | (c_acquire) "pending d = []" "count_at {Waiting} (tasks d) \<noteq> 0"
        "count_at {Probing} (tasks d) = 0" "count_at {Returned} (tasks d) = 0"
    | (c_close) "pending d = []" "count_at {Released} (tasks d) = 0"
        "count_at {Returned} (tasks d) = 0" "count_at {Probing} (tasks d) = 0"
        "count_at {Waiting} (tasks d) = 0"
    by blast
  then show ?thesis
  proof cases
    case c_spawn
    then have "\<exists>d'. step maxConcurrency d Spawn = Some d'"
      by (cases "pending d") simp_all
    then show ?thesis by blast
  next
    case c_done
    from at_place_exists [OF c_done(2)] obtain i where i: "at_place d i Released" ..
    from inv count_at_pos [OF i, of "{Waiting, Probing, Returned, Released}"]
    have "0 < wg d" by (simp add: dispatch_inv_def)
    with i have "\<exists>d'. step maxConcurrency d (Done i) = Some d'" by simp
    then show ?thesis by blast
  next
    case c_release
    from at_place_exists [OF c_release(2)] obtain i where i: "at_place d i Returned" ..
    from inv count_at_pos [OF i, of "{Probing, Returned}"]
    have "0 < sem d" by (simp add: dispatch_inv_def)
    with i have "\<exists>d'. step maxConcurrency d (Release i) = Some d'" by simp
    then show ?thesis by blast
  next
    case c_return
    from at_place_exists [OF c_return(2)] obtain i where i: "at_place d i Probing" ..
    then have "\<exists>d'. step maxConcurrency d (PingReturns i True) = Some d'" by simp
    then show ?thesis by blast
  next
    case c_acquire
    from at_place_exists [OF c_acquire(2)] obtain i where i: "at_place d i Waiting" ..
    have "count_at {Probing, Returned} (tasks d) = 0"
      using c_acquire(3,4) by (intro count_at_none) simp
    with inv C have "sem d < maxConcurrency" by (simp add: dispatch_inv_def)
    with i have "\<exists>d'. step maxConcurrency d (Acquire i) = Some d'" by simp
    then show ?thesis by blast
  next
    case c_close
    have "count_at {Waiting, Probing, Returned, Released} (tasks d) = 0"
      using c_close(2-5) by (intro count_at_none) simp
    with inv have "wg d = 0" by (simp add: dispatch_inv_def)
    with c_close(1) o have "\<exists>d'. step maxConcurrency d WaitAndClose = Some d'" by simp
    then show ?thesis by blast
  qed
qed

lemma run_append:
  "run maxConcurrency d (xs @ ys)
   = (case run maxConcurrency d xs of None \<Rightarrow> None | Some d' \<Rightarrow> run maxConcurrency d' ys)"
  by (induction xs arbitrary: d) (auto split: option.splits)

text \<open>From every state of a run with a limit above zero, the run can go on to the close.\<close>

lemma dispatch_completes:
  assumes "0 < maxConcurrency"
  shows "dispatch_inv targets maxConcurrency d \<Longrightarrow>
         \<exists>rest d'. run maxConcurrency d rest = Some d' \<and> closed d'"
proof (induction "steps_left d" arbitrary: d rule: less_induct)
  case less
  show ?case
  proof (cases "closed d")
    case True
    then have "run maxConcurrency d [] = Some d \<and> closed d" by simp
    then show ?thesis by blast
  next
    case False
    from dispatch_progress [OF less.prems assms False] obtain a d1 where
      1: "step maxConcurrency d a = Some d1" by blast
    from steps_left_step [OF 1] have "steps_left d1 < steps_left d" by simp
    from less.hyps [OF this dispatch_inv_step [OF less.prems 1]] obtain rest d' where
      "run maxConcurrency d1 rest = Some d'" "closed d'" by blast
    with 1 have "run maxConcurrency d (a # rest) = Some d' \<and> closed d'" by simp
    then show ?thesis by blast
  qed
qed

text \<open>
  The results on the channel are those of the goroutines whose \<open>Ping\<close> sent one, each for
  the target of its goroutine; and no goroutine sends twice, since none goes back into
  \<open>Ping\<close>.
\<close>

lemma succeeded_Cons: "succeeded (a # sched) = result_of a @ succeeded sched"
  by (simp add: succeeded_def)

lemma step_sent_results:
  assumes "dispatch_inv targets maxConcurrency d" and "step maxConcurrency d a = Some d'"
  shows "sent_results d' = sent_results d @ map (\<lambda>i. targets ! i) (result_of a)"
proof (cases a)
  case (PingReturns i ok)
  with assms(2) have i: "i < length (tasks d)"
    and s: "sent_results d'
            = (if ok then sent_results d @ [fst (tasks d ! i)] else sent_results d)"
    by (auto simp: at_place_def split: if_splits)
  from assms(1) have "targets = map fst (tasks d) @ pending d"
    by (simp add: dispatch_inv_def)
  with i have "targets ! i = fst (tasks d ! i)" by (simp add: nth_append)
  with s PingReturns show ?thesis by simp
qed (use assms(2) in \<open>auto split: list.splits if_splits\<close>)

lemma run_sent_results:
  "dispatch_inv targets maxConcurrency d \<Longrightarrow> run maxConcurrency d sched = Some d' \<Longrightarrow>
   sent_results d' = sent_results d @ map (\<lambda>i. targets ! i) (succeeded sched)"
proof (induction sched arbitrary: d)
  case Nil
  then show ?case by (simp add: succeeded_def)
next
  case (Cons a sched)
  from Cons.prems(2) obtain d1 where
    1: "step maxConcurrency d a = Some d1" and 2: "run maxConcurrency d1 sched = Some d'"
    by (auto split: option.splits)
  from Cons.IH [OF dispatch_inv_step [OF Cons.prems(1) 1] 2]
    step_sent_results [OF Cons.prems(1) 1]
  show ?case by (simp add: succeeded_Cons)
qed

lemma past_ping_step:
  assumes "step maxConcurrency d a = Some d'" and "past_ping d i"
  shows "past_ping d' i"
proof (cases a)
  case Spawn
  with assms show ?thesis
    by (auto simp: past_ping_def nth_append split: list.splits)
next
  case (Acquire j)
  with assms show ?thesis
    by (auto simp: past_ping_def at_place_def move_def nth_list_update split: if_splits)
next
  case (PingReturns j ok)
  with assms show ?thesis
    by (auto simp: past_ping_def at_place_def move_def nth_list_update split: if_splits)
next
  case (Release j)
  with assms show ?thesis
    by (auto simp: past_ping_def at_place_def move_def nth_list_update split: if_splits)
next
  case (Done j)
  with assms show ?thesis
    by (auto simp: past_ping_def at_place_def move_def nth_list_update split: if_splits)
next
  case WaitAndClose
  with assms show ?thesis
    by (auto simp: past_ping_def split: if_splits)
qed

lemma result_of_step:
  assumes "step maxConcurrency d a = Some d'" and "i \<in> set (result_of a)"
  shows "\<not> past_ping d i \<and> past_ping d' i"
proof (cases a)
  case (PingReturns j ok)
  with assms show ?thesis
    by (auto simp: past_ping_def at_place_def move_def split: if_splits)
qed (use assms(2) in simp_all)

lemma succeeded_distinct:
  "run maxConcurrency d sched = Some d' \<Longrightarrow>
   distinct (succeeded sched) \<and> (\<forall>i\<in>set (succeeded sched). \<not> past_ping d i)"
proof (induction sched arbitrary: d)
  case Nil
  then show ?case by (simp add: succeeded_def)
next
  case (Cons a sched)
  from Cons.prems obtain d1 where
    1: "step maxConcurrency d a = Some d1" and 2: "run maxConcurrency d1 sched = Some d'"
    by (auto split: option.splits)
  from Cons.IH [OF 2] have dis: "distinct (succeeded sched)"
    and np: "\<forall>i\<in>set (succeeded sched). \<not> past_ping d1 i" by simp_all
  have r: "distinct (result_of a)" by (cases a) simp_all
  have x: "set (result_of a) \<inter> set (succeeded sched) = {}"
    using result_of_step [OF 1] np by blast
  have n: "\<forall>i\<in>set (result_of a) \<union> set (succeeded sched). \<not> past_ping d i"
    using result_of_step [OF 1] past_ping_step [OF 1] np by blast
  from dis r x n show ?case by (simp add: succeeded_Cons)
qed

text \<open>
  C9. In every state \<open>d\<close> of every run of the dispatcher on the targets with the limit
  \<open>maxConcurrency\<close>: the goroutines started so far are for the targets the loops have
  passed, one each and in their order; no more than \<open>maxConcurrency\<close> goroutines are inside
  \<open>Ping\<close>; and if the result channel is closed, then there is one goroutine for every
  target and each has finished, whether its \<open>Ping\<close> sent a result or not. The results
  on the channel are those of the goroutines whose \<open>Ping\<close> sent one, for the targets of
  these goroutines, and no goroutine sends a second one. The dispatcher does get there: while targets are left the next goroutine can be started, whatever the
  limit; with a limit above zero some step can be taken as long as the channel is open,
  and the run can go on from \<open>d\<close> to the close; and the steps taken and the steps left add
  up to five for every target and one for the close, so no run is longer than that.
\<close>

theorem dispatcher_bounded:
  assumes "run maxConcurrency (dispatch targets) sched = Some d"
  shows "map fst (tasks d) @ pending d = targets \<and>
         count_at {Probing} (tasks d) \<le> maxConcurrency \<and>
         (closed d \<longrightarrow>
            map fst (tasks d) = targets \<and> (\<forall>t\<in>set (tasks d). snd t = Finished)) \<and>
         sent_results d = map (\<lambda>i. targets ! i) (succeeded sched) \<and>
         distinct (succeeded sched) \<and>
         (pending d \<noteq> [] \<longrightarrow> step maxConcurrency d Spawn \<noteq> None) \<and>
         (0 < maxConcurrency \<and> \<not> closed d \<longrightarrow> (\<exists>a d'. step maxConcurrency d a = Some d')) \<and>
         (0 < maxConcurrency \<longrightarrow>
            (\<exists>rest d'. run maxConcurrency d rest = Some d' \<and> closed d')) \<and>
         length sched + steps_left d = 5 * length targets + 1"
proof -
  from dispatch_inv_run [OF dispatch_inv_init assms]
  have inv: "dispatch_inv targets maxConcurrency d" .
  have "count_at {Probing} (tasks d) \<le> count_at {Probing, Returned} (tasks d)"
    by (rule count_at_mono) simp
  with inv have b: "count_at {Probing} (tasks d) \<le> maxConcurrency"
    by (simp add: dispatch_inv_def)
  have c: "map fst (tasks d) = targets \<and> (\<forall>t\<in>set (tasks d). snd t = Finished)" if "closed d"
  proof -
    from inv that have p: "pending d = []"
      and z: "count_at {Waiting, Probing, Returned, Released} (tasks d) = 0"
      by (simp_all add: dispatch_inv_def)
    from z have "\<forall>t\<in>set (tasks d). snd t = Finished"
      by (auto simp: count_at_zero_iff intro: place_exhaust)
    with inv p show ?thesis by (simp add: dispatch_inv_def)
  qed
  have l: "length sched + steps_left d = 5 * length targets + 1"
    using steps_left_run [OF assms] by (simp add: steps_left_def dispatch_def)
  show ?thesis
  proof (intro conjI impI)
    show "map fst (tasks d) @ pending d = targets"
      using inv by (simp add: dispatch_inv_def)
    show "count_at {Probing} (tasks d) \<le> maxConcurrency" by (rule b)
    show "map fst (tasks d) = targets" "\<forall>t\<in>set (tasks d). snd t = Finished"
      if "closed d" using c [OF that] by simp_all
    show "sent_results d = map (\<lambda>i. targets ! i) (succeeded sched)"
      using run_sent_results [OF dispatch_inv_init assms] by (simp add: dispatch_def)
    show "distinct (succeeded sched)"
      using succeeded_distinct [OF assms] by simp
    show "step maxConcurrency d Spawn \<noteq> None" if "pending d \<noteq> []"
      using that by (rule spawn_enabled)
    show "\<exists>a d'. step maxConcurrency d a = Some d'" if "0 < maxConcurrency \<and> \<not> closed d"
      using dispatch_progress [OF inv] that by blast
    show "\<exists>rest d'. run maxConcurrency d rest = Some d' \<and> closed d'" if "0 < maxConcurrency"
      using dispatch_completes [OF that inv] .
    show "length sched + steps_left d = 5 * length targets + 1" by (rule l)
  qed
qed

lemma run_schedule1:
  "run 1 (dispatch [target1, target2]) schedule1
   = Some \<lparr>pending = [], tasks = [(target1, Finished), (target2, Finished)], sem = 0, wg = 0,
           sent_results = [target1], closed = True\<rparr>"
  by (simp add: schedule1_def dispatch_def at_place_def move_def)

lemma run_schedule1_start:
  "run 1 (dispatch [target1, target2]) [Spawn, Acquire 0]
   = Some \<lparr>pending = [target2], tasks = [(target1, Probing)], sem = 1, wg = 1,
           sent_results = [], closed = False\<rparr>"
  by (simp add: dispatch_def at_place_def move_def)

theorem dispatcher_bounded_witness:
  "run 1 (dispatch [target1, target2]) [Spawn, Acquire 0]
     = Some \<lparr>pending = [target2], tasks = [(target1, Probing)], sem = 1, wg = 1,
             sent_results = [], closed = False\<rparr> \<and>
   [target2] \<noteq> [] \<and> (0::nat) < 1 \<and>
   step 1 \<lparr>pending = [target2], tasks = [(target1, Probing)], sem = 1, wg = 1,
            sent_results = [], closed = False\<rparr> Spawn
     = Some \<lparr>pending = [], tasks = [(target1, Probing), (target2, Waiting)], sem = 1, wg = 2,
             sent_results = [], closed = False\<rparr> \<and>
   step 1 \<lparr>pending = [], tasks = [(target1, Probing), (target2, Waiting)], sem = 1, wg = 2,
            sent_results = [], closed = False\<rparr> (Acquire 1) = None \<and>
   count_at {Probing} [(target1, Probing)] \<le> 1 \<and>
   length [Spawn, Acquire (0::nat)]
     + steps_left \<lparr>pending = [target2], tasks = [(target1, Probing)], sem = 1, wg = 1,
                   sent_results = [], closed = False\<rparr>
     = 5 * length [target1, target2] + 1 \<and>
   run 1 (dispatch [target1, target2]) schedule1
     = Some \<lparr>pending = [], tasks = [(target1, Finished), (target2, Finished)], sem = 0, wg = 0,
             sent_results = [target1], closed = True\<rparr> \<and>
   length schedule1 = 5 * length [target1, target2] + 1 \<and>
   map fst [(target1, Finished), (target2, Finished)] = [target1, target2] \<and>
   succeeded schedule1 = [0] \<and>
   map (\<lambda>i. [target1, target2] ! i) (succeeded schedule1) = [target1] \<and>
   snd (target1, Finished) = Finished \<and> snd (target2, Finished) = Finished"
proof -
  let ?mid = "\<lparr>pending = [target2], tasks = [(target1, Probing)], sem = 1, wg = 1,
             sent_results = [], closed = False\<rparr>"
  from dispatcher_bounded [OF run_schedule1_start]
  have a: "count_at {Probing} [(target1, Probing)] \<le> 1"
    and l: "length [Spawn, Acquire (0::nat)] + steps_left ?mid
            = 5 * length [target1, target2] + 1"
    by simp_all
  from dispatcher_bounded [OF run_schedule1]
  have b: "map fst [(target1, Finished), (target2, Finished)] = [target1, target2]"
    and f: "length schedule1 = 5 * length [target1, target2] + 1"
    and g: "map (\<lambda>i. [target1, target2] ! i) (succeeded schedule1) = [target1]"
    by (simp_all add: steps_left_def)
  have e: "succeeded schedule1 = [0]" by (simp add: succeeded_def schedule1_def)
  have c: "step 1 ?mid Spawn
     = Some \<lparr>pending = [], tasks = [(target1, Probing), (target2, Waiting)], sem = 1, wg = 2,
             sent_results = [], closed = False\<rparr>"
    "step 1 \<lparr>pending = [], tasks = [(target1, Probing), (target2, Waiting)], sem = 1,
             wg = 2, sent_results = [], closed = False\<rparr> (Acquire 1) = None"
    by (simp_all add: at_place_def)
  from run_schedule1_start a l c run_schedule1 b f g e show ?thesis by simp
qed

end
